theory Spec2Isabelle
  imports Complex_Main "HOL-Library.Word" "HOL-Library.List_Lexorder" "HOL-Library.Sublist"
begin

section \<open>JavaScript strings\<close>

text \<open>
  A JavaScript string is a sequence of 16-bit code units; \<open>length\<close>, \<open>slice\<close>, \<open>startsWith\<close>
  and the regular expressions of \<^verbatim>\<open>server.js\<close> (none has the \<^verbatim>\<open>u\<close> flag) all work on code units.
  \<open>js\<close> turns an ASCII literal into such a string.
\<close>

type_synonym jschar = "16 word"
type_synonym jsstring = "jschar list"

definition js :: "string \<Rightarrow> jsstring" where
  "js s = map of_char s"

abbreviation ch :: "char \<Rightarrow> jschar" where
  "ch c \<equiv> of_char c"

definition emdash :: jschar where
  \<comment> \<open>U+2014, the dash of the user-facing messages\<close>
  "emdash = 0x2014"

definition is_space :: "jschar \<Rightarrow> bool" where
  \<comment> \<open>the class \<^verbatim>\<open>\s\<close>, which is also what \<^verbatim>\<open>trim()\<close> strips: WhiteSpace and LineTerminator\<close>
  "is_space c \<longleftrightarrow>
     c = 0x09 \<or> c = 0x0A \<or> c = 0x0B \<or> c = 0x0C \<or> c = 0x0D \<or> c = 0x20 \<or> c = 0xA0 \<or>
     c = 0x1680 \<or> (0x2000 \<le> c \<and> c \<le> 0x200A) \<or> c = 0x2028 \<or> c = 0x2029 \<or>
     c = 0x202F \<or> c = 0x205F \<or> c = 0x3000 \<or> c = 0xFEFF"

definition is_digit :: "jschar \<Rightarrow> bool" where
  \<comment> \<open>the class \<^verbatim>\<open>\d\<close>\<close>
  "is_digit c \<longleftrightarrow> 0x30 \<le> c \<and> c \<le> 0x39"

definition upper_ascii :: "jschar \<Rightarrow> jschar" where
  \<comment> \<open>Canonicalize of the \<^verbatim>\<open>i\<close> flag, on the code units that can meet an ASCII pattern character:
      a code unit from 128 on is never mapped below 128\<close>
  "upper_ascii c = (if 0x61 \<le> c \<and> c \<le> 0x7A then c - 0x20 else c)"

definition starts_with :: "jsstring \<Rightarrow> jsstring \<Rightarrow> bool" where
  \<comment> \<open>\<^verbatim>\<open>s.startsWith(p)\<close>\<close>
  "starts_with s p \<longleftrightarrow> take (length p) s = p"

definition ends_with :: "jsstring \<Rightarrow> jsstring \<Rightarrow> bool" where
  \<comment> \<open>\<^verbatim>\<open>s.endsWith(p)\<close>\<close>
  "ends_with s p \<longleftrightarrow> length p \<le> length s \<and> drop (length s - length p) s = p"

fun split_on :: "jschar \<Rightarrow> jsstring \<Rightarrow> jsstring list" where
  \<comment> \<open>\<^verbatim>\<open>s.split(d)\<close> for a one-character separator; the empty string gives one empty piece\<close>
  "split_on d [] = [[]]"
| "split_on d (c # cs) =
     (if c = d then [] # split_on d cs
      else (case split_on d cs of [] \<Rightarrow> [[c]] | l # ls \<Rightarrow> (c # l) # ls))"

fun join :: "jsstring \<Rightarrow> jsstring list \<Rightarrow> jsstring" where
  \<comment> \<open>\<^verbatim>\<open>pieces.join(sep)\<close>\<close>
  "join sep [] = []"
| "join sep [l] = l"
| "join sep (l # m # ls) = l @ sep @ join sep (m # ls)"

definition trim :: "jsstring \<Rightarrow> jsstring" where
  \<comment> \<open>\<^verbatim>\<open>s.trim()\<close>\<close>
  "trim s = rev (dropWhile is_space (rev (dropWhile is_space s)))"

section \<open>Regular expressions\<close>

text \<open>
  The regular expressions of the source use literals, character classes, sequence,
  alternation, \<^verbatim>\<open>+\<close> and the anchors. \<open>rx_matches r s\<close> lists what is left of \<open>s\<close> after each way
  \<open>r\<close> can match at its start, in the order a backtracking matcher tries them: the left
  alternative first, the longest repetition first. An iteration of \<^verbatim>\<open>+\<close> that consumes nothing
  is refused, as in ECMAScript.
\<close>

datatype rx =
    REmpty
  | REnd  \<comment> \<open>\<^verbatim>\<open>$\<close> without the \<^verbatim>\<open>m\<close> flag\<close>
  | RClass "jschar \<Rightarrow> bool"
  | RSeq rx rx
  | RAlt rx rx
  | RPlus rx

function rx_matches :: "rx \<Rightarrow> jsstring \<Rightarrow> jsstring list" where
  "rx_matches REmpty s = [s]"
| "rx_matches REnd s = (if s = [] then [s] else [])"
| "rx_matches (RClass p) s = (case s of [] \<Rightarrow> [] | c # cs \<Rightarrow> if p c then [cs] else [])"
| "rx_matches (RSeq a b) s = concat (map (rx_matches b) (rx_matches a s))"
| "rx_matches (RAlt a b) s = rx_matches a s @ rx_matches b s"
| "rx_matches (RPlus a) s =
     concat (map (\<lambda>r. if length r < length s then rx_matches (RPlus a) r @ [r] else [])
                 (rx_matches a s))"
  by pat_completeness auto
termination
  by (relation "measures [\<lambda>(r, s). size r, \<lambda>(r, s). length s]") auto

fun lit :: "jsstring \<Rightarrow> rx" where
  \<comment> \<open>a literal, case-sensitive\<close>
  "lit [] = REmpty"
| "lit (c # cs) = RSeq (RClass (\<lambda>x. x = c)) (lit cs)"

fun lit_i :: "jsstring \<Rightarrow> rx" where
  \<comment> \<open>an ASCII literal under the \<^verbatim>\<open>i\<close> flag\<close>
  "lit_i [] = REmpty"
| "lit_i (c # cs) = RSeq (RClass (\<lambda>x. upper_ascii x = upper_ascii c)) (lit_i cs)"

definition rx_match_start :: "rx \<Rightarrow> jsstring \<Rightarrow> bool" where
  \<comment> \<open>\<^verbatim>\<open>/^r/.test(s)\<close>: with a leading \<^verbatim>\<open>^\<close> only position 0 can match\<close>
  "rx_match_start r s \<longleftrightarrow> rx_matches r s \<noteq> []"

fun rx_test :: "rx \<Rightarrow> jsstring \<Rightarrow> bool" where
  \<comment> \<open>\<^verbatim>\<open>/r/.test(s)\<close>: a match at some position\<close>
  "rx_test r [] = (rx_matches r [] \<noteq> [])"
| "rx_test r (c # cs) = (rx_matches r (c # cs) \<noteq> [] \<or> rx_test r cs)"

function rx_replace_all :: "rx \<Rightarrow> jsstring \<Rightarrow> jsstring \<Rightarrow> jsstring" where
  \<comment> \<open>\<^verbatim>\<open>s.replace(/r/g, rep)\<close> for a replacement without \<^verbatim>\<open>$\<close> patterns: the leftmost match, the
      first the matcher finds there, then on from its end; after an empty match the next
      character is copied\<close>
  "rx_replace_all r rep s =
     (case rx_matches r s of
        [] \<Rightarrow> (case s of [] \<Rightarrow> [] | c # cs \<Rightarrow> c # rx_replace_all r rep cs)
      | rest # _ \<Rightarrow>
          if length rest < length s then rep @ rx_replace_all r rep rest
          else rep @ (case s of [] \<Rightarrow> [] | c # cs \<Rightarrow> c # rx_replace_all r rep cs))"
  by pat_completeness auto
termination
  by (relation "measure (\<lambda>(r, rep, s). length s)") auto

section \<open>Responses\<close>

datatype 'a outcome = Returns 'a | Throws jsstring
  \<comment> \<open>what a call into the environment does: it returns, or throws an error with this \<^verbatim>\<open>message\<close>\<close>

record analysis_result =
  analysis :: jsstring
  platform :: jsstring
  hasTranscript :: bool
  frameCount :: nat

datatype body =
    ErrorBody jsstring  \<comment> \<open>\<^verbatim>\<open>{ error: msg }\<close>\<close>
  | SuccessBody  \<comment> \<open>\<^verbatim>\<open>{ success: true }\<close>\<close>
  | AnalysisBody analysis_result

datatype response = Response nat body
  \<comment> \<open>status code and JSON body; \<^verbatim>\<open>res.json\<close> without \<^verbatim>\<open>res.status\<close> is status 200\<close>

section \<open>Platform detection\<close>

definition youtube_rx :: rx where
  \<comment> \<open>\<^verbatim>\<open>/youtube\.com|youtu\.be/\<close>\<close>
  "youtube_rx = RAlt (lit (js ''youtube.com'')) (lit (js ''youtu.be''))"

definition tiktok_rx :: rx where
  \<comment> \<open>\<^verbatim>\<open>/tiktok\.com/\<close>\<close>
  "tiktok_rx = lit (js ''tiktok.com'')"

definition instagram_rx :: rx where
  \<comment> \<open>\<^verbatim>\<open>/instagram\.com/\<close>\<close>
  "instagram_rx = lit (js ''instagram.com'')"

definition detectPlatform :: "jsstring \<Rightarrow> jsstring option" where
  "detectPlatform url =
     (if rx_test youtube_rx url then Some (js ''youtube'')
      else if rx_test tiktok_rx url then Some (js ''tiktok'')
      else if rx_test instagram_rx url then Some (js ''instagram'')
      else None)"

section \<open>Transcript parsing\<close>

definition timestamp_rx :: rx where
  \<comment> \<open>\<^verbatim>\<open>/^\d{2}:\d{2}/\<close>, matched at the start of the line\<close>
  "timestamp_rx =
     RSeq (RClass is_digit) (RSeq (RClass is_digit)
       (RSeq (RClass (\<lambda>c. c = ch CHR '':''))
         (RSeq (RClass is_digit) (RClass is_digit))))"

definition tag_rx :: rx where
  \<comment> \<open>\<^verbatim>\<open>/<[^>]+>/\<close>\<close>
  "tag_rx =
     RSeq (RClass (\<lambda>c. c = ch CHR ''<''))
       (RSeq (RPlus (RClass (\<lambda>c. c \<noteq> ch CHR ''>''))) (RClass (\<lambda>c. c = ch CHR ''>'')))"

definition spaces_rx :: rx where
  \<comment> \<open>\<^verbatim>\<open>/\s+/\<close>\<close>
  "spaces_rx = RPlus (RClass is_space)"

definition keep_line :: "jsstring \<Rightarrow> bool" where
  \<comment> \<open>the predicate of \<^verbatim>\<open>filter\<close> in \<^verbatim>\<open>parseVTT\<close>\<close>
  "keep_line line \<longleftrightarrow>
     line \<noteq> [] \<and>
     \<not> starts_with line (js ''WEBVTT'') \<and>
     \<not> rx_match_start timestamp_rx line \<and>
     \<not> starts_with line (js ''NOTE'') \<and>
     \<not> starts_with line (js ''Kind:'') \<and>
     \<not> starts_with line (js ''Language:'')"

definition parseVTT :: "jsstring \<Rightarrow> jsstring" where
  "parseVTT vtt =
     take 3000
       (trim
         (rx_replace_all spaces_rx (js '' '')
           (rx_replace_all tag_rx []
             (join (js '' '') (filter keep_line (split_on 0x0A vtt))))))"

section \<open>Email capture\<close>

definition email_rx :: rx where
  \<comment> \<open>\<^verbatim>\<open>/^[^\s@]+@[^\s@]+\.[^\s@]+$/\<close>, matched at the start of the string\<close>
  "email_rx =
     RSeq (RPlus (RClass (\<lambda>c. \<not> is_space c \<and> c \<noteq> ch CHR ''@'')))
       (RSeq (RClass (\<lambda>c. c = ch CHR ''@''))
         (RSeq (RPlus (RClass (\<lambda>c. \<not> is_space c \<and> c \<noteq> ch CHR ''@'')))
           (RSeq (RClass (\<lambda>c. c = ch CHR ''.''))
             (RSeq (RPlus (RClass (\<lambda>c. \<not> is_space c \<and> c \<noteq> ch CHR ''@''))) REnd))))"

record email_env =
  now_iso :: jsstring  \<comment> \<open>\<^verbatim>\<open>new Date().toISOString()\<close>\<close>
  appendFileSync_result :: "unit outcome"

record email_state =
  emails_txt :: jsstring  \<comment> \<open>the content of \<^verbatim>\<open>emails.txt\<close>\<close>
  append_calls :: "jsstring list"  \<comment> \<open>the data of every call of \<^verbatim>\<open>fs.appendFileSync\<close>\<close>
  email_stdout :: "jsstring list"  \<comment> \<open>\<^verbatim>\<open>console.log\<close>\<close>
  email_stderr :: "jsstring list"  \<comment> \<open>\<^verbatim>\<open>console.error\<close>\<close>

definition save_email :: "email_env \<Rightarrow> jsstring option \<Rightarrow> email_state \<Rightarrow> response \<times> email_state" where
  \<comment> \<open>the handler of \<^verbatim>\<open>POST /api/save-email\<close>; \<open>None\<close> is a body without the field. A failed append
      leaves the file as it was.\<close>
  "save_email env email st =
     (case email of
        None \<Rightarrow> (Response 400 (ErrorBody (js ''Invalid email address'')), st)
      | Some e \<Rightarrow>
          if e = [] \<or> \<not> rx_match_start email_rx e
          then (Response 400 (ErrorBody (js ''Invalid email address'')), st)
          else
            let entry = now_iso env @ [0x09] @ e @ [0x0A];
                st1 = st\<lparr>append_calls := append_calls st @ [entry]\<rparr>
            in (case appendFileSync_result env of
                  Returns _ \<Rightarrow>
                    (Response 200 SuccessBody,
                     st1\<lparr>emails_txt := emails_txt st1 @ entry,
                         email_stdout := email_stdout st1 @ [js ''[email] '' @ e]\<rparr>)
                | Throws m \<Rightarrow>
                    (Response 200 SuccessBody,
                     st1\<lparr>email_stderr := email_stderr st1 @ [js ''Failed to save email: '' @ m]\<rparr>)))"

section \<open>Streaming chat\<close>

datatype stream_event =
    TextDelta jsstring  \<comment> \<open>\<^verbatim>\<open>content_block_delta\<close> whose delta is a \<^verbatim>\<open>text_delta\<close> with this text\<close>
  | OtherEvent  \<comment> \<open>any other event of the stream\<close>

datatype stream_end = Completed | Failed jsstring
  \<comment> \<open>the stream ends after its events, or throws there (at once, when opening it throws)\<close>

datatype sse =
    TextFrame jsstring  \<comment> \<open>\<^verbatim>\<open>data: {"text": ...}\n\n\<close>\<close>
  | ErrorFrame jsstring  \<comment> \<open>\<^verbatim>\<open>data: {"error": ...}\n\n\<close>\<close>
  | DoneFrame  \<comment> \<open>\<^verbatim>\<open>data: [DONE]\n\n\<close>\<close>

record connection =
  written :: "sse list"  \<comment> \<open>the calls of \<^verbatim>\<open>res.write\<close>, in order\<close>
  ended :: bool  \<comment> \<open>\<^verbatim>\<open>res.end()\<close> was called\<close>
  reads :: nat  \<comment> \<open>how often \<^verbatim>\<open>res.destroyed\<close> has been read\<close>
  chat_stderr :: "jsstring list"

definition destroyed :: "nat option \<Rightarrow> connection \<Rightarrow> bool" where
  \<comment> \<open>\<open>Some d\<close>: the caller is gone from the read number \<open>d\<close> of \<^verbatim>\<open>res.destroyed\<close> on, and stays gone\<close>
  "destroyed gone c = (case gone of None \<Rightarrow> False | Some d \<Rightarrow> d \<le> reads c)"

definition tick :: "connection \<Rightarrow> connection" where
  "tick c = c\<lparr>reads := Suc (reads c)\<rparr>"

fun relay :: "nat option \<Rightarrow> stream_event list \<Rightarrow> connection \<Rightarrow> bool \<times> connection" where
  \<comment> \<open>the \<^verbatim>\<open>for await\<close> loop; the flag says that the loop ran to the end of the stream (no \<^verbatim>\<open>break\<close>)\<close>
  "relay gone [] c = (True, c)"
| "relay gone (e # es) c =
     (if destroyed gone c then (False, tick c)
      else relay gone es
             (case e of
                TextDelta t \<Rightarrow> (tick c)\<lparr>written := written c @ [TextFrame t]\<rparr>
              | OtherEvent \<Rightarrow> tick c))"

definition chat_stream :: "nat option \<Rightarrow> stream_event list \<Rightarrow> stream_end \<Rightarrow> connection \<Rightarrow> connection" where
  \<comment> \<open>\<^verbatim>\<open>try\<close>, \<^verbatim>\<open>catch\<close> and \<^verbatim>\<open>finally\<close> of the handler. After a \<^verbatim>\<open>break\<close> the stream is not read any
      further, so its failure is not seen.\<close>
  "chat_stream gone events ending c =
     (let (whole, c1) = relay gone events c;
          c2 = (case ending of
                  Completed \<Rightarrow> c1
                | Failed m \<Rightarrow>
                    if \<not> whole then c1
                    else
                      let c' = c1\<lparr>chat_stderr := chat_stderr c1 @ [js ''Stream error: '' @ m]\<rparr>
                      in if \<not> destroyed gone c'
                         then (tick c')\<lparr>written := written c' @ [ErrorFrame (js ''Something went wrong. Please try again.'')]\<rparr>
                         else tick c')
      in if \<not> destroyed gone c2
         then (tick c2)\<lparr>written := written c2 @ [DoneFrame], ended := True\<rparr>
         else tick c2)"

datatype chat_result = Rejected response | Streamed connection

definition chat :: "nat option \<Rightarrow> stream_event list \<Rightarrow> stream_end \<Rightarrow> 'm list option \<Rightarrow> chat_result" where
  \<comment> \<open>the handler of \<^verbatim>\<open>POST /api/chat\<close>; \<open>None\<close> is a \<^verbatim>\<open>messages\<close> field that is not an array\<close>
  "chat gone events ending messages =
     (case messages of
        None \<Rightarrow> Rejected (Response 400 (ErrorBody (js ''Invalid messages array'')))
      | Some ms \<Rightarrow>
          if ms = [] then Rejected (Response 400 (ErrorBody (js ''Invalid messages array'')))
          else Streamed (chat_stream gone events ending
                 \<lparr>written = [], ended = False, reads = 0, chat_stderr = []\<rparr>))"

section \<open>Video analysis\<close>

subsection \<open>Error classification\<close>

definition private_rx :: rx where
  \<comment> \<open>\<^verbatim>\<open>/private/i\<close>\<close>
  "private_rx = lit_i (js ''private'')"

definition too_long_rx :: rx where
  \<comment> \<open>\<^verbatim>\<open>/1200|duration|too long/i\<close>\<close>
  "too_long_rx = RAlt (lit_i (js ''1200'')) (RAlt (lit_i (js ''duration'')) (lit_i (js ''too long'')))"

definition unavailable_rx :: rx where
  \<comment> \<open>\<^verbatim>\<open>/unavailable|not available/i\<close>\<close>
  "unavailable_rx = RAlt (lit_i (js ''unavailable'')) (lit_i (js ''not available''))"

definition msg_private :: jsstring where
  "msg_private = js ''That video is private '' @ [emdash] @ js '' paste a public URL.''"

definition msg_too_long :: jsstring where
  "msg_too_long = js ''Video is too long '' @ [emdash] @ js '' max 20 minutes.''"

definition msg_unavailable :: jsstring where
  "msg_unavailable = js ''Video unavailable. Make sure the URL is public.''"

definition msg_generic :: jsstring where
  "msg_generic = js ''Could not analyze that video. Make sure the URL is public and try again.''"

definition classify :: "jsstring \<Rightarrow> jsstring" where
  \<comment> \<open>the conditional chain of the \<^verbatim>\<open>catch\<close> block, on \<^verbatim>\<open>err.message\<close>\<close>
  "classify m =
     (if rx_test private_rx m then msg_private
      else if rx_test too_long_rx m then msg_too_long
      else if rx_test unavailable_rx m then msg_unavailable
      else msg_generic)"

definition msg_download_failed :: jsstring where
  \<comment> \<open>the error thrown when no video file is found\<close>
  "msg_download_failed =
     js ''Download failed '' @ [emdash] @ js '' video may be private or unavailable''"

definition msg_no_frames :: jsstring where
  \<comment> \<open>the error thrown when no frame could be read\<close>
  "msg_no_frames = js ''Could not extract frames from video''"

subsection \<open>The prompt\<close>

function dec :: "nat \<Rightarrow> jsstring" where
  \<comment> \<open>\<^verbatim>\<open>String(n)\<close> for a count\<close>
  "dec n = (if n < 10 then [0x30 + of_nat n] else dec (n div 10) @ [0x30 + of_nat (n mod 10)])"
  by pat_completeness auto
termination
  by (relation "measure (\<lambda>n. n)") auto

definition pad2 :: "jsstring \<Rightarrow> jsstring" where
  \<comment> \<open>\<^verbatim>\<open>s.padStart(2, '0')\<close>\<close>
  "pad2 s = replicate (2 - length s) (ch CHR ''0'') @ s"

definition prompt_head :: jsstring where
  "prompt_head =
     js (''You're a sharp content strategist analyzing a '')"

definition prompt_middle :: jsstring where
  "prompt_middle =
     js ('' video for a creator who wants honest, actionable feedback.\<newline>'' @
        ''\<newline>'')"

definition prompt_tail :: jsstring where
  "prompt_tail =
     js ('' frames are attached, sampled evenly across the full video.\<newline>'' @
        ''\<newline>'' @
        ''Give direct, specific feedback:\<newline>'' @
        ''\<newline>'' @
        ''## Hook (First 3 Seconds)\<newline>'' @
        ''Was the opening strong? What technique did they use? Would you keep watching?\<newline>'' @
        ''\<newline>'' @
        ''## Visuals & Production\<newline>'' @
        ''Lighting, framing, editing pace, shot variety, overall production quality.\<newline>'' @
        ''\<newline>'' @
        ''## Content & Structure\<newline>'' @
        ''How well organized? Pacing, storytelling, clarity of message.\<newline>'' @
        ''\<newline>'' @
        ''## What's Working\<newline>'' @
        ''2-3 specific strengths. Be specific, not generic.\<newline>'' @
        ''\<newline>'' @
        ''## Top Improvements\<newline>'' @
        ''2-3 changes that would make the biggest difference. Be direct and actionable.\<newline>'' @
        ''\<newline>'' @
        ''## Score: X/10\<newline>'' @
        ''One punchy sentence summary.\<newline>'' @
        ''\<newline>'' @
        ''Talk like a creative director, not a cheerleader. Reference specific things you actually see.'')"

definition transcript_part :: "jsstring \<Rightarrow> jsstring" where
  \<comment> \<open>the conditional of the template: the empty string is the only falsy string\<close>
  "transcript_part transcript =
     (if transcript \<noteq> []
      then js ''TRANSCRIPT (auto-generated):\<newline>\"'' @ transcript @ js ''\"\<newline>\<newline>''
      else js ''No transcript available '' @ [emdash] @ js '' analyze visuals only.\<newline>\<newline>'')"

definition prompt :: "jsstring \<Rightarrow> jsstring \<Rightarrow> nat \<Rightarrow> jsstring" where
  "prompt plat transcript n =
     prompt_head @ plat @ prompt_middle @ transcript_part transcript @ dec n @ prompt_tail"

subsection \<open>The pipeline\<close>

text \<open>
  The handler reaches the world through the downloader, the prober, the frame extractor,
  the file system and the vision model. One request sees one result of each call; the
  record below holds them, and every theorem quantifies over it. Durations and timestamps
  are IEEE doubles in the source; the model computes with exact rationals and takes the
  value of \<^verbatim>\<open>parseFloat\<close> from the environment (\<open>None\<close> is NaN, infinities are left out).
\<close>

type_synonym buffer = "8 word list"

record video_env =
  mkdirSync_result :: "unit outcome"
  download_result :: "unit outcome"  \<comment> \<open>the first run of the downloader\<close>
  readdir_after_download :: "jsstring list outcome"  \<comment> \<open>\<^verbatim>\<open>fs.readdirSync(tempDir)\<close>, first call\<close>
  subtitles_result :: "unit outcome"  \<comment> \<open>the second run of the downloader\<close>
  readdir_after_subtitles :: "jsstring list outcome"  \<comment> \<open>\<^verbatim>\<open>fs.readdirSync(tempDir)\<close>, second call\<close>
  readFile_subtitle :: "jsstring \<Rightarrow> jsstring outcome"  \<comment> \<open>\<^verbatim>\<open>fs.readFileSync(..., 'utf8')\<close> by file name\<close>
  ffprobe_result :: "jsstring outcome"  \<comment> \<open>the prober's standard output\<close>
  parseFloat :: "jsstring \<Rightarrow> rat option"
  readdir_frames :: "jsstring list outcome"  \<comment> \<open>\<^verbatim>\<open>fs.readdirSync(framesDir)\<close>\<close>
  readFile_frame :: "jsstring \<Rightarrow> buffer outcome"  \<comment> \<open>\<^verbatim>\<open>fs.readFileSync\<close> by frame file name\<close>
  vision_result :: "jsstring outcome"  \<comment> \<open>\<^verbatim>\<open>response.content[0].text\<close> of the model call\<close>
  rmSync_result :: "unit outcome"

record video_state =
  workspace_exists :: bool  \<comment> \<open>the temporary directory of this request exists\<close>
  ffmpeg_calls :: "(rat \<times> jsstring) list"  \<comment> \<open>timestamp and frame file of each extraction launched\<close>
  vision_calls :: "(buffer list \<times> jsstring) list"  \<comment> \<open>images and prompt of each model call\<close>
  rmSync_calls :: nat
  video_stderr :: "jsstring list"

definition find_video :: "jsstring list \<Rightarrow> jsstring option" where
  "find_video allFiles =
     List.find (\<lambda>f. starts_with f (js ''video.'') \<and> \<not> ends_with f (js ''.vtt'')) allFiles"

definition fetch_transcript :: "video_env \<Rightarrow> jsstring" where
  \<comment> \<open>step 2; every failure inside leaves the transcript empty\<close>
  "fetch_transcript env =
     (case subtitles_result env of
        Throws _ \<Rightarrow> []
      | Returns _ \<Rightarrow>
          (case readdir_after_subtitles env of
             Throws _ \<Rightarrow> []
           | Returns files \<Rightarrow>
               (case filter (\<lambda>f. ends_with f (js ''.vtt'')) files of
                  [] \<Rightarrow> []
                | f # _ \<Rightarrow>
                    (case readFile_subtitle env f of
                       Throws _ \<Rightarrow> []
                     | Returns vtt \<Rightarrow> parseVTT vtt))))"

definition probe_duration :: "video_env \<Rightarrow> rat" where
  \<comment> \<open>step 3: \<^verbatim>\<open>parseFloat(stdout.trim()) || 60\<close>, and 60 when the prober fails\<close>
  "probe_duration env =
     (case ffprobe_result env of
        Throws _ \<Rightarrow> 60
      | Returns out \<Rightarrow>
          (case parseFloat env (trim out) of
             None \<Rightarrow> 60
           | Some d \<Rightarrow> if d = 0 then 60 else d))"

function frame_loop :: "rat \<Rightarrow> nat \<Rightarrow> nat \<Rightarrow> (rat \<times> jsstring) list \<Rightarrow> (rat \<times> jsstring) list" where
  \<comment> \<open>the \<^verbatim>\<open>for\<close> loop of step 4, from \<open>i\<close> on: one extraction launched per round\<close>
  "frame_loop duration n i launched =
     (if i < n
      then frame_loop duration n (Suc i)
             (launched @
               [(max (1 / 2) (duration / of_nat n * of_nat i),
                 js ''frame'' @ pad2 (dec i) @ js ''.jpg'')])
      else launched)"
  by pat_completeness auto
termination
  by (relation "measure (\<lambda>(duration, n, i, launched). n - i)") auto

definition read_frames :: "video_env \<Rightarrow> jsstring list \<Rightarrow> buffer list" where
  \<comment> \<open>step 5: the \<^verbatim>\<open>.jpg\<close> files in sorted order, those that cannot be read left out\<close>
  "read_frames env files =
     List.map_filter
       (\<lambda>f. case readFile_frame env f of Returns b \<Rightarrow> Some b | Throws _ \<Rightarrow> None)
       (sort (filter (\<lambda>f. ends_with f (js ''.jpg'')) files))"

definition pipeline :: "video_env \<Rightarrow> jsstring \<Rightarrow> video_state \<Rightarrow> (jsstring + analysis_result) \<times> video_state" where
  \<comment> \<open>the \<^verbatim>\<open>try\<close> block: \<open>Inl m\<close> is an error thrown with message \<open>m\<close>, \<open>Inr\<close> the body sent\<close>
  "pipeline env plat st =
     (case mkdirSync_result env of
        Throws m \<Rightarrow> (Inl m, st)
      | Returns _ \<Rightarrow>
          let st1 = st\<lparr>workspace_exists := True\<rparr> in
          (case download_result env of
             Throws m \<Rightarrow> (Inl m, st1)
           | Returns _ \<Rightarrow>
               (case readdir_after_download env of
                  Throws m \<Rightarrow> (Inl m, st1)
                | Returns allFiles \<Rightarrow>
                    (case find_video allFiles of
                       None \<Rightarrow> (Inl msg_download_failed, st1)
                     | Some videoFile \<Rightarrow>
                         let transcript = fetch_transcript env;
                             duration = probe_duration env;
                             st2 = st1\<lparr>ffmpeg_calls := ffmpeg_calls st1 @ frame_loop duration 8 0 []\<rparr>
                         in (case readdir_frames env of
                               Throws m \<Rightarrow> (Inl m, st2)
                             | Returns files \<Rightarrow>
                                 let frameBuffers = read_frames env files in
                                 if frameBuffers = [] then (Inl msg_no_frames, st2)
                                 else
                                   let st3 = st2\<lparr>vision_calls := vision_calls st2 @
                                           [(frameBuffers, prompt plat transcript (length frameBuffers))]\<rparr>
                                   in (case vision_result env of
                                         Throws m \<Rightarrow> (Inl m, st3)
                                       | Returns text \<Rightarrow>
                                           (Inr \<lparr>analysis = text, platform = plat,
                                                 hasTranscript = (transcript \<noteq> []),
                                                 frameCount = length frameBuffers\<rparr>, st3)))))))"

definition cleanup :: "video_env \<Rightarrow> video_state \<Rightarrow> video_state" where
  \<comment> \<open>the \<^verbatim>\<open>finally\<close> block: a deletion that throws has not removed the directory, and its error
      goes no further\<close>
  "cleanup env st =
     (let st1 = st\<lparr>rmSync_calls := Suc (rmSync_calls st)\<rparr>
      in case rmSync_result env of
           Returns _ \<Rightarrow> st1\<lparr>workspace_exists := False\<rparr>
         | Throws _ \<Rightarrow> st1)"

definition analyze_video :: "video_env \<Rightarrow> jsstring option \<Rightarrow> video_state \<Rightarrow> response \<times> video_state" where
  \<comment> \<open>the handler of \<^verbatim>\<open>POST /api/analyze-video\<close>; \<open>None\<close> is a body without the field\<close>
  "analyze_video env url st =
     (case url of
        None \<Rightarrow> (Response 400 (ErrorBody (js ''No URL provided'')), st)
      | Some u \<Rightarrow>
          if u = [] then (Response 400 (ErrorBody (js ''No URL provided'')), st)
          else
            (case detectPlatform u of
               None \<Rightarrow>
                 (Response 400 (ErrorBody (js ''Please paste a YouTube, TikTok, or Instagram URL.'')), st)
             | Some plat \<Rightarrow>
                 (case pipeline env plat st of
                    (Inr result, st1) \<Rightarrow> (Response 200 (AnalysisBody result), cleanup env st1)
                  | (Inl m, st1) \<Rightarrow>
                      (Response 500 (ErrorBody (classify m)),
                       cleanup env
                         (st1\<lparr>video_stderr := video_stderr st1 @ [js ''Video analysis error: '' @ m]\<rparr>)))))"

section \<open>Notions of the specification, and sample requests\<close>

text \<open>
  The predicates below say in the words of the specification what the theorems are about;
  the sample environments are the concrete requests at which the theorems are evaluated.
\<close>

fun after_scheme :: "jsstring \<Rightarrow> jsstring" where
  \<comment> \<open>what follows the first \<^verbatim>\<open>://\<close>\<close>
  "after_scheme [] = []"
| "after_scheme (c # cs) =
     (if prefix (js ''://'') (c # cs) then drop 3 (c # cs) else after_scheme cs)"

definition spec_url_host :: "jsstring \<Rightarrow> jsstring" where
  \<comment> \<open>the host domain of a URL, the notion the specification classifies by; the source has
      no such function and matches its patterns against the whole string\<close>
  "spec_url_host url =
     takeWhile (\<lambda>c. c \<noteq> ch CHR ''/'' \<and> c \<noteq> ch CHR ''?'' \<and> c \<noteq> ch CHR ''#'') (after_scheme url)"

definition tiktok_example :: jsstring where
  "tiktok_example = js ''https://www.tiktok.com/@creator/video/7?source=youtube.com''"

definition vtt_headers_only :: jsstring where
  \<comment> \<open>a subtitle file with header, metadata and timestamp lines and no cue text\<close>
  "vtt_headers_only =
     js (''WEBVTT\<newline>'' @
         ''Kind: captions\<newline>'' @
         ''Language: en\<newline>'' @
         ''\<newline>'' @
         ''00:00:01.000 --> 00:00:02.000\<newline>'')"

definition state0 :: video_state where
  "state0 =
     \<lparr>workspace_exists = False, ffmpeg_calls = [], vision_calls = [], rmSync_calls = 0,
      video_stderr = []\<rparr>"

definition env_ok :: video_env where
  \<comment> \<open>a request on which every step succeeds: one video file, one subtitle file, two frames\<close>
  "env_ok =
     \<lparr>mkdirSync_result = Returns (),
      download_result = Returns (),
      readdir_after_download = Returns [js ''frames'', js ''video.mp4''],
      subtitles_result = Returns (),
      readdir_after_subtitles = Returns [js ''frames'', js ''sub.en.vtt'', js ''video.mp4''],
      readFile_subtitle = (\<lambda>f. Returns vtt_headers_only),
      ffprobe_result = Returns (js ''12.5\<newline>''),
      parseFloat = (\<lambda>s. if s = js ''12.5'' then Some (25 / 2) else None),
      readdir_frames = Returns [js ''frame01.jpg'', js ''frame00.jpg''],
      readFile_frame = (\<lambda>f. Returns [0xFF, 0xD8]),
      vision_result = Returns (js ''Strong hook.''),
      rmSync_result = Returns ()\<rparr>"

definition mentions :: "jsstring \<Rightarrow> jsstring \<Rightarrow> bool" where
  \<comment> \<open>\<open>m\<close> contains \<open>p\<close>, ASCII letters compared without regard to case\<close>
  "mentions m p \<longleftrightarrow> sublist (map upper_ascii p) (map upper_ascii m)"

definition readable_frames :: "video_env \<Rightarrow> jsstring list \<Rightarrow> nat" where
  \<comment> \<open>the number of frames produced: the \<^verbatim>\<open>.jpg\<close> entries of the frames directory that can be read\<close>
  "readable_frames env files =
     length (filter (\<lambda>f. ends_with f (js ''.jpg'') \<and> (\<exists>b. readFile_frame env f = Returns b)) files)"


definition env_no_frames :: video_env where
  \<comment> \<open>every frame extraction failed: the frames directory is empty\<close>
  "env_no_frames = env_ok\<lparr>readdir_frames := Returns []\<rparr>"

definition env_rm_fails :: video_env where
  \<comment> \<open>every step succeeds and the deletion of the workspace throws\<close>
  "env_rm_fails = env_ok\<lparr>rmSync_result := Throws (js ''EBUSY: resource busy or locked, rmdir'')\<rparr>"

fun texts :: "stream_event list \<Rightarrow> jsstring list" where
  \<comment> \<open>the text fragments of a stream, in the order the model emits them\<close>
  "texts [] = []"
| "texts (TextDelta t # es) = t # texts es"
| "texts (OtherEvent # es) = texts es"

definition full_stream :: "stream_event list \<Rightarrow> stream_end \<Rightarrow> sse list" where
  \<comment> \<open>what a caller who stays connected is to receive: every fragment in order, one error event
      if the stream failed, the sentinel\<close>
  "full_stream events ending =
     map TextFrame (texts events) @
     (case ending of
        Completed \<Rightarrow> []
      | Failed m \<Rightarrow> [ErrorFrame (js ''Something went wrong. Please try again.'')]) @
     [DoneFrame]"

definition conn0 :: connection where
  \<comment> \<open>the connection when the handler starts to stream\<close>
  "conn0 = \<lparr>written = [], ended = False, reads = 0, chat_stderr = []\<rparr>"

definition email_shape :: "jsstring \<Rightarrow> bool" where
  \<comment> \<open>the shape \<^verbatim>\<open>local@domain.tld\<close> in the words of the specification: three non-empty parts
      without whitespace or \<^verbatim>\<open>@\<close>, an \<^verbatim>\<open>@\<close> after the first and a dot after the second\<close>
  "email_shape e \<longleftrightarrow>
     (\<exists>l d t. e = l @ [ch CHR ''@''] @ d @ [ch CHR ''.''] @ t \<and> l \<noteq> [] \<and> d \<noteq> [] \<and> t \<noteq> [] \<and>
        (\<forall>c \<in> set (l @ d @ t). \<not> is_space c \<and> c \<noteq> ch CHR ''@''))"

definition rejected_email :: "email_env \<Rightarrow> jsstring option \<Rightarrow> email_state \<Rightarrow> bool" where
  \<comment> \<open>the request is answered with status 400 and the state is as before: nothing was appended\<close>
  "rejected_email env email st \<longleftrightarrow>
     save_email env email st = (Response 400 (ErrorBody (js ''Invalid email address'')), st)"

definition email_state0 :: email_state where
  "email_state0 = \<lparr>emails_txt = [], append_calls = [], email_stdout = [], email_stderr = []\<rparr>"

definition email_env_ok :: email_env where
  "email_env_ok = \<lparr>now_iso = js ''2025-01-15T09:30:00.000Z'', appendFileSync_result = Returns ()\<rparr>"


definition timestamp_start :: "jsstring \<Rightarrow> bool" where
  \<comment> \<open>the line begins with two digits, a colon and two digits\<close>
  "timestamp_start l \<longleftrightarrow>
     (\<exists>a b c d rest. l = a # b # ch CHR '':'' # c # d # rest \<and>
        is_digit a \<and> is_digit b \<and> is_digit c \<and> is_digit d)"

definition marker_line :: "jsstring \<Rightarrow> bool" where
  \<comment> \<open>the line begins with a header or metadata marker or with a timestamp\<close>
  "marker_line l \<longleftrightarrow>
     prefix (js ''WEBVTT'') l \<or> prefix (js ''NOTE'') l \<or> prefix (js ''Kind:'') l \<or>
     prefix (js ''Language:'') l \<or> timestamp_start l"

definition adjacent_spaces :: "jsstring \<Rightarrow> bool" where
  \<comment> \<open>two whitespace characters side by side somewhere in the string\<close>
  "adjacent_spaces r \<longleftrightarrow> (\<exists>a b. sublist [a, b] r \<and> is_space a \<and> is_space b)"

abbreviation strip_tags :: "jsstring \<Rightarrow> jsstring" where
  "strip_tags \<equiv> rx_replace_all tag_rx []"

abbreviation collapse :: "jsstring \<Rightarrow> jsstring" where
  "collapse \<equiv> rx_replace_all spaces_rx (js '' '')"

definition vtt_sample_lines :: "jsstring list" where
  "vtt_sample_lines =
     [js ''WEBVTT'', js ''Kind: captions'', js ''Language: en'', js '''',
      js ''00:00:01.000 --> 00:00:03.000'', js ''Hello <c>big</c>   world'', js ''NOTE end'']"

section \<open>Facts about the matcher\<close>

text \<open>
  The equation of \<open>rx_matches\<close> for \<^verbatim>\<open>+\<close> rewrites a call into a term with another call, so
  it is used on request only; \<open>rx_plus_class\<close> is its form for a repeated character class.
\<close>

declare rx_matches.simps(6) [simp del]

lemma rx_plus_class:
  "rx_matches (RPlus (RClass P)) [] = []"
  "rx_matches (RPlus (RClass P)) (c # cs) =
     (if P c then rx_matches (RPlus (RClass P)) cs @ [cs] else [])"
  by (simp_all add: rx_matches.simps(6))

lemma rx_matches_lit:
  "rx_matches (lit p) s = (if prefix p s then [drop (length p) s] else [])"
proof (induction p arbitrary: s)
  case Nil
  show ?case by simp
next
  case (Cons c p)
  show ?case
  proof (cases s)
    case Nil
    then show ?thesis by simp
  next
    case (Cons d t)
    with Cons.IH [of t] show ?thesis by simp
  qed
qed


lemma rx_test_lit: "rx_test (lit p) s \<longleftrightarrow> sublist p s"
  by (induction s) (simp_all add: rx_matches_lit sublist_Cons_right)


lemma rx_test_RAlt: "rx_test (RAlt a b) s \<longleftrightarrow> rx_test a s \<or> rx_test b s"
  by (induction s) auto

section \<open>Platform detection and URL validation\<close>

lemma detectPlatform_sublist:
  "detectPlatform url =
     (if sublist (js ''youtube.com'') url \<or> sublist (js ''youtu.be'') url then Some (js ''youtube'')
      else if sublist (js ''tiktok.com'') url then Some (js ''tiktok'')
      else if sublist (js ''instagram.com'') url then Some (js ''instagram'')
      else None)"
  by (simp add: detectPlatform_def youtube_rx_def tiktok_rx_def instagram_rx_def
      rx_test_RAlt rx_test_lit)

lemma analyze_video_status:
  "detectPlatform url = Some plat \<Longrightarrow> url \<noteq> [] \<Longrightarrow>
     (\<exists>r. fst (analyze_video env (Some url) st) = Response 200 (AnalysisBody r)) \<or>
     (\<exists>m. fst (analyze_video env (Some url) st) = Response 500 (ErrorBody m))"
  by (cases "pipeline env plat st") (auto simp: analyze_video_def split: sum.splits)

text \<open>
  C7, as the code has it. The three patterns are searched anywhere in the submitted string,
  not in its host, and the first that is found decides: a string containing
  \<^verbatim>\<open>youtube.com\<close> or \<^verbatim>\<open>youtu.be\<close> is classified \<^verbatim>\<open>youtube\<close>; otherwise one containing
  \<^verbatim>\<open>tiktok.com\<close> is \<^verbatim>\<open>tiktok\<close>; otherwise one containing \<^verbatim>\<open>instagram.com\<close> is \<^verbatim>\<open>instagram\<close>.
  A non-empty URL is answered with status 400 and the message naming the three platforms
  exactly when it contains none of the four substrings.
\<close>

theorem detectPlatform_first_match:
  "detectPlatform url =
     (if sublist (js ''youtube.com'') url \<or> sublist (js ''youtu.be'') url then Some (js ''youtube'')
      else if sublist (js ''tiktok.com'') url then Some (js ''tiktok'')
      else if sublist (js ''instagram.com'') url then Some (js ''instagram'')
      else None) \<and>
   (url \<noteq> [] \<longrightarrow>
     (fst (analyze_video env (Some url) st) =
        Response 400 (ErrorBody (js ''Please paste a YouTube, TikTok, or Instagram URL.''))
      \<longleftrightarrow> \<not> (sublist (js ''youtube.com'') url \<or> sublist (js ''youtu.be'') url \<or>
             sublist (js ''tiktok.com'') url \<or> sublist (js ''instagram.com'') url)))"
proof (intro conjI impI)
  show "detectPlatform url =
     (if sublist (js ''youtube.com'') url \<or> sublist (js ''youtu.be'') url then Some (js ''youtube'')
      else if sublist (js ''tiktok.com'') url then Some (js ''tiktok'')
      else if sublist (js ''instagram.com'') url then Some (js ''instagram'')
      else None)"
    by (rule detectPlatform_sublist)
next
  assume ne: "url \<noteq> []"
  show "fst (analyze_video env (Some url) st) =
        Response 400 (ErrorBody (js ''Please paste a YouTube, TikTok, or Instagram URL.''))
      \<longleftrightarrow> \<not> (sublist (js ''youtube.com'') url \<or> sublist (js ''youtu.be'') url \<or>
             sublist (js ''tiktok.com'') url \<or> sublist (js ''instagram.com'') url)"
  proof (cases "detectPlatform url")
    case None
    then have "fst (analyze_video env (Some url) st) =
        Response 400 (ErrorBody (js ''Please paste a YouTube, TikTok, or Instagram URL.''))"
      using ne by (simp add: analyze_video_def)
    moreover from None have "\<not> (sublist (js ''youtube.com'') url \<or> sublist (js ''youtu.be'') url \<or>
             sublist (js ''tiktok.com'') url \<or> sublist (js ''instagram.com'') url)"
      by (simp add: detectPlatform_sublist split: if_splits)
    ultimately show ?thesis by simp
  next
    case (Some plat)
    from analyze_video_status [OF Some ne, of env st]
    have "fst (analyze_video env (Some url) st) \<noteq>
        Response 400 (ErrorBody (js ''Please paste a YouTube, TikTok, or Instagram URL.''))"
      by auto
    moreover from Some have "sublist (js ''youtube.com'') url \<or> sublist (js ''youtu.be'') url \<or>
             sublist (js ''tiktok.com'') url \<or> sublist (js ''instagram.com'') url"
      by (auto simp: detectPlatform_sublist split: if_splits)
    ultimately show ?thesis by simp
  qed
qed

theorem detectPlatform_first_match_witness:
  "js ''https://vimeo.com/76979871'' \<noteq> [] \<and>
   detectPlatform (js ''https://vimeo.com/76979871'') = None \<and>
   fst (analyze_video env_ok (Some (js ''https://vimeo.com/76979871'')) state0) =
     Response 400 (ErrorBody (js ''Please paste a YouTube, TikTok, or Instagram URL.''))"
  using detectPlatform_first_match [of "js ''https://vimeo.com/76979871''" env_ok state0]
  by (simp add: js_def sublist_Cons_right)

text \<open>
  C7, as stated, fails: this URL has the host \<^verbatim>\<open>www.tiktok.com\<close> and matches the TikTok pattern,
  and it is classified \<^verbatim>\<open>youtube\<close>, because its query string contains \<^verbatim>\<open>youtube.com\<close>.
\<close>

theorem tiktok_url_classified_youtube:
  "spec_url_host tiktok_example = js ''www.tiktok.com'' \<and>
   rx_test tiktok_rx tiktok_example \<and>
   detectPlatform tiktok_example = Some (js ''youtube'')"
  by (simp add: spec_url_host_def detectPlatform_def youtube_rx_def tiktok_rx_def
      tiktok_example_def js_def)

section \<open>Error classification\<close>

lemmas msg_defs = msg_private_def msg_too_long_def msg_unavailable_def msg_generic_def
  msg_download_failed_def msg_no_frames_def emdash_def


lemma analyze_video_pipeline:
  "url \<noteq> [] \<Longrightarrow> detectPlatform url = Some plat \<Longrightarrow>
   analyze_video env (Some url) st =
     (case pipeline env plat st of
        (Inr result, st1) \<Rightarrow> (Response 200 (AnalysisBody result), cleanup env st1)
      | (Inl m, st1) \<Rightarrow>
          (Response 500 (ErrorBody (classify m)),
           cleanup env (st1\<lparr>video_stderr := video_stderr st1 @ [js ''Video analysis error: '' @ m]\<rparr>)))"
  by (simp add: analyze_video_def)

lemma youtu_be_url:
  "js ''https://youtu.be/dQw4w9WgXcQ'' \<noteq> [] \<and>
   detectPlatform (js ''https://youtu.be/dQw4w9WgXcQ'') = Some (js ''youtube'')"
  by (simp add: detectPlatform_def youtube_rx_def js_def)






section \<open>The workspace\<close>

lemma steps_rmSync_indep:
  "fetch_transcript (env\<lparr>rmSync_result := r\<rparr>) = fetch_transcript env"
  "probe_duration (env\<lparr>rmSync_result := r\<rparr>) = probe_duration env"
  "read_frames (env\<lparr>rmSync_result := r\<rparr>) files = read_frames env files"
  by (simp_all add: fetch_transcript_def probe_duration_def read_frames_def
      cong: outcome.case_cong option.case_cong list.case_cong)

lemma pipeline_rmSync_indep: "pipeline (env\<lparr>rmSync_result := r\<rparr>) plat st = pipeline env plat st"
  by (simp add: pipeline_def steps_rmSync_indep Let_def del: frame_loop.simps
      split: outcome.splits option.splits)

lemma pipeline_rmSync_calls: "rmSync_calls (snd (pipeline env plat st)) = rmSync_calls st"
  by (simp add: pipeline_def Let_def del: frame_loop.simps split: outcome.splits option.splits)

lemma cleanup_props:
  "rmSync_calls (cleanup env st) = Suc (rmSync_calls st)"
  "rmSync_result env = Returns () \<Longrightarrow> \<not> workspace_exists (cleanup env st)"
  "rmSync_result env = Throws e \<Longrightarrow> workspace_exists (cleanup env st) = workspace_exists st"
  by (simp_all add: cleanup_def Let_def split: outcome.splits)

text \<open>
  C1, as the code has it. For every request that passes URL validation, whatever the
  pipeline does (success, or a failure at any step), the recursive deletion of the workspace
  is attempted exactly once, after the response is decided. When the deletion returns, the
  workspace no longer exists. When it throws, the error is suppressed: the response is the
  one the request would have had anyway. Nothing is promised about the directory then.
\<close>

theorem workspace_removed_if_deletion_returns:
  assumes "url \<noteq> []" and "detectPlatform url = Some plat"
  shows "rmSync_calls (snd (analyze_video env (Some url) st)) = Suc (rmSync_calls st) \<and>
         (rmSync_result env = Returns () \<longrightarrow>
            \<not> workspace_exists (snd (analyze_video env (Some url) st))) \<and>
         fst (analyze_video (env\<lparr>rmSync_result := Throws e\<rparr>) (Some url) st) =
           fst (analyze_video env (Some url) st)"
proof -
  obtain r st1 where p: "pipeline env plat st = (r, st1)"
    by (cases "pipeline env plat st")
  from pipeline_rmSync_calls [of env plat st] p have calls: "rmSync_calls st1 = rmSync_calls st"
    by simp
  from p have p': "pipeline (env\<lparr>rmSync_result := Throws e\<rparr>) plat st = (r, st1)"
    by (simp add: pipeline_rmSync_indep)
  show ?thesis
    using assms p p' calls
    by (cases r) (simp_all add: analyze_video_pipeline cleanup_props)
qed

theorem workspace_removed_if_deletion_returns_witness:
  "rmSync_calls (snd (analyze_video env_ok (Some (js ''https://youtu.be/dQw4w9WgXcQ'')) state0)) = 1 \<and>
   \<not> workspace_exists (snd (analyze_video env_ok (Some (js ''https://youtu.be/dQw4w9WgXcQ'')) state0))"
  using workspace_removed_if_deletion_returns [of "js ''https://youtu.be/dQw4w9WgXcQ''"
      "js ''youtube''" env_ok state0] youtu_be_url
  by (simp add: env_ok_def state0_def)

lemma pipeline_env_ok_workspace:
  "workspace_exists (snd (pipeline env_ok (js ''youtube'') state0))"
  by (simp add: pipeline_def env_ok_def find_video_def starts_with_def ends_with_def
      js_def Let_def del: frame_loop.simps split: outcome.splits option.splits)

text \<open>
  C1, as stated, fails when the deletion throws: on this request every step succeeds, the
  deletion throws, the error is suppressed, and the workspace is still there when the
  request has completed.
\<close>

theorem workspace_left_if_deletion_throws:
  "workspace_exists
     (snd (analyze_video env_rm_fails (Some (js ''https://youtu.be/dQw4w9WgXcQ'')) state0))"
proof -
  obtain r st1 where p: "pipeline env_ok (js ''youtube'') state0 = (r, st1)"
    by (cases "pipeline env_ok (js ''youtube'') state0")
  with pipeline_env_ok_workspace have w: "workspace_exists st1" by simp
  from p have p': "pipeline env_rm_fails (js ''youtube'') state0 = (r, st1)"
    by (simp add: env_rm_fails_def pipeline_rmSync_indep)
  have rm: "rmSync_result env_rm_fails = Throws (js ''EBUSY: resource busy or locked, rmdir'')"
    by (simp add: env_rm_fails_def)
  show ?thesis
    using youtu_be_url p' w
    by (cases r) (simp_all add: analyze_video_pipeline cleanup_props(3) [OF rm])
qed

section \<open>Frames and the response\<close>

lemma classify_no_frames: "classify msg_no_frames = msg_generic"
  by (simp add: classify_def private_rx_def too_long_rx_def unavailable_rx_def msg_defs js_def
      upper_ascii_def)

lemma frame_readable_iff:
  "(\<exists>y. (case readFile_frame env f of Returns b \<Rightarrow> Some b | Throws _ \<Rightarrow> None) = Some y) \<longleftrightarrow>
   (\<exists>b. readFile_frame env f = Returns b)"
  by (cases "readFile_frame env f") auto

lemma length_read_frames: "length (read_frames env files) = readable_frames env files"
proof -
  have "length (read_frames env files) =
        length (filter (\<lambda>f. \<exists>b. readFile_frame env f = Returns b)
                 (sort (filter (\<lambda>f. ends_with f (js ''.jpg'')) files)))"
    unfolding read_frames_def List.map_filter_def
    by (simp add: frame_readable_iff)
  also have "\<dots> = length (sort (filter (\<lambda>f. \<exists>b. readFile_frame env f = Returns b)
                 (filter (\<lambda>f. ends_with f (js ''.jpg'')) files)))"
    by (simp only: filter_sort)
  also have "\<dots> = readable_frames env files"
    by (simp add: readable_frames_def conj_commute)
  finally show ?thesis .
qed

lemma read_frames_Nil_iff: "read_frames env files = [] \<longleftrightarrow> readable_frames env files = 0"
  using length_read_frames [of env files] by auto

lemma pipeline_at_frames:
  assumes "mkdirSync_result env = Returns ()" and "download_result env = Returns ()"
    and "readdir_after_download env = Returns allFiles" and "find_video allFiles = Some videoFile"
    and "readdir_frames env = Returns files"
  shows "readable_frames env files = 0 \<Longrightarrow>
           \<exists>st1. pipeline env plat st = (Inl msg_no_frames, st1) \<and> video_stderr st1 = video_stderr st"
    and "readable_frames env files \<noteq> 0 \<Longrightarrow> vision_result env = Returns text \<Longrightarrow>
           \<exists>st1. pipeline env plat st =
             (Inr \<lparr>analysis = text, platform = plat,
                   hasTranscript = (fetch_transcript env \<noteq> []),
                   frameCount = readable_frames env files\<rparr>, st1)"
    and "readable_frames env files \<noteq> 0 \<Longrightarrow> vision_result env = Throws m \<Longrightarrow>
           \<exists>st1. pipeline env plat st = (Inl m, st1)"
  using assms
  by (simp_all add: pipeline_def Let_def read_frames_Nil_iff length_read_frames
      del: frame_loop.simps)

lemma env_ok_facts:
  "mkdirSync_result env_ok = Returns ()"
  "download_result env_ok = Returns ()"
  "readdir_after_download env_ok = Returns [js ''frames'', js ''video.mp4'']"
  "find_video [js ''frames'', js ''video.mp4''] = Some (js ''video.mp4'')"
  "readdir_frames env_ok = Returns [js ''frame01.jpg'', js ''frame00.jpg'']"
  "readable_frames env_ok [js ''frame01.jpg'', js ''frame00.jpg''] = 2"
  "vision_result env_ok = Returns (js ''Strong hook.'')"
  "subtitles_result env_ok = Returns ()"
  "readdir_after_subtitles env_ok = Returns [js ''frames'', js ''sub.en.vtt'', js ''video.mp4'']"
  "filter (\<lambda>f. ends_with f (js ''.vtt'')) [js ''frames'', js ''sub.en.vtt'', js ''video.mp4''] =
     [js ''sub.en.vtt'']"
  "readFile_subtitle env_ok (js ''sub.en.vtt'') = Returns vtt_headers_only"
  by (simp_all add: env_ok_def find_video_def starts_with_def ends_with_def readable_frames_def
      js_def)

lemma env_no_frames_facts:
  "mkdirSync_result env_no_frames = Returns ()"
  "download_result env_no_frames = Returns ()"
  "readdir_after_download env_no_frames = Returns [js ''frames'', js ''video.mp4'']"
  "readdir_frames env_no_frames = Returns []"
  "readable_frames env_no_frames [] = 0"
  by (simp_all add: env_no_frames_def env_ok_def readable_frames_def)

lemma vtt_headers_only_empty: "parseVTT vtt_headers_only = []"
  by (simp add: vtt_headers_only_def parseVTT_def js_def keep_line_def starts_with_def
      rx_match_start_def timestamp_rx_def is_digit_def tag_rx_def spaces_rx_def trim_def
      rx_plus_class)

lemma fetch_transcript_env_ok: "fetch_transcript env_ok = []"
  unfolding fetch_transcript_def
  by (simp only: env_ok_facts outcome.case list.case vtt_headers_only_empty)

text \<open>
  C2, as the code has it. For a request that has reached the frame stage (workspace made,
  video downloaded and found, frames directory listed): when no frame can be read, the
  response is status 500 with the generic "could not analyze" text, and the message
  "Could not extract frames from video" goes to the server log only; when at least one
  frame can be read and the vision model answers, the response is status 200 and its
  \<^verbatim>\<open>frameCount\<close> is the number of frames read.
\<close>

theorem frame_count_response:
  assumes "url \<noteq> []" and "detectPlatform url = Some plat"
    and "mkdirSync_result env = Returns ()" and "download_result env = Returns ()"
    and "readdir_after_download env = Returns allFiles" and "find_video allFiles = Some videoFile"
    and "readdir_frames env = Returns files"
  shows "(readable_frames env files = 0 \<longrightarrow>
            fst (analyze_video env (Some url) st) = Response 500 (ErrorBody msg_generic) \<and>
            video_stderr (snd (analyze_video env (Some url) st)) =
              video_stderr st @ [js ''Video analysis error: '' @ msg_no_frames]) \<and>
         (1 \<le> readable_frames env files \<longrightarrow>
            (\<forall>text. vision_result env = Returns text \<longrightarrow>
               fst (analyze_video env (Some url) st) =
                 Response 200 (AnalysisBody
                   \<lparr>analysis = text, platform = plat,
                    hasTranscript = (fetch_transcript env \<noteq> []),
                    frameCount = readable_frames env files\<rparr>)))"
proof (intro conjI impI allI)
  assume z: "readable_frames env files = 0"
  from pipeline_at_frames(1) [OF assms(3-7) z, of plat st]
  obtain st1 where "pipeline env plat st = (Inl msg_no_frames, st1)" "video_stderr st1 = video_stderr st"
    by blast
  then show "fst (analyze_video env (Some url) st) = Response 500 (ErrorBody msg_generic)"
    and "video_stderr (snd (analyze_video env (Some url) st)) =
              video_stderr st @ [js ''Video analysis error: '' @ msg_no_frames]"
    using assms(1,2) by (simp_all add: analyze_video_pipeline classify_no_frames cleanup_def Let_def split: outcome.splits)
next
  fix reply
  assume "1 \<le> readable_frames env files" and v: "vision_result env = Returns reply"
  then have nz: "readable_frames env files \<noteq> 0" by simp
  from pipeline_at_frames(2) [OF assms(3-7) nz v, of plat st]
  obtain st1 where "pipeline env plat st =
             (Inr \<lparr>analysis = reply, platform = plat,
                   hasTranscript = (fetch_transcript env \<noteq> []),
                   frameCount = readable_frames env files\<rparr>, st1)"
    by blast
  then show "fst (analyze_video env (Some url) st) =
                 Response 200 (AnalysisBody
                   \<lparr>analysis = reply, platform = plat,
                    hasTranscript = (fetch_transcript env \<noteq> []),
                    frameCount = readable_frames env files\<rparr>)"
    using assms(1,2) by (simp add: analyze_video_pipeline)
qed

theorem frame_count_response_witness:
  "fst (analyze_video env_ok (Some (js ''https://youtu.be/dQw4w9WgXcQ'')) state0) =
     Response 200 (AnalysisBody
       \<lparr>analysis = js ''Strong hook.'', platform = js ''youtube'', hasTranscript = False,
        frameCount = 2\<rparr>) \<and>
   fst (analyze_video env_no_frames (Some (js ''https://youtu.be/dQw4w9WgXcQ'')) state0) =
     Response 500 (ErrorBody msg_generic)"
  using frame_count_response [of "js ''https://youtu.be/dQw4w9WgXcQ''" "js ''youtube''" env_ok
      "[js ''frames'', js ''video.mp4'']" "js ''video.mp4''"
      "[js ''frame01.jpg'', js ''frame00.jpg'']" state0]
    frame_count_response [of "js ''https://youtu.be/dQw4w9WgXcQ''" "js ''youtube''" env_no_frames
      "[js ''frames'', js ''video.mp4'']" "js ''video.mp4''" "[]" state0]
    youtu_be_url
  by (simp add: env_ok_facts env_no_frames_facts fetch_transcript_env_ok)

lemma analyze_env_no_frames:
  "fst (analyze_video env_no_frames (Some (js ''https://youtu.be/dQw4w9WgXcQ'')) state0) =
     Response 500 (ErrorBody msg_generic)"
proof -
  from pipeline_at_frames(1) [OF env_no_frames_facts(1-3) env_ok_facts(4) env_no_frames_facts(4,5)]
  obtain st1 where "pipeline env_no_frames (js ''youtube'') state0 = (Inl msg_no_frames, st1)"
    by blast
  then show ?thesis
    using youtu_be_url by (simp add: analyze_video_pipeline classify_no_frames)
qed

text \<open>
  C2, as stated, fails on its first half: with no frame at all the response is status 500,
  but its message is the generic one, which is not the "could not extract frames" message
  and does not mention frames.
\<close>

theorem no_frames_answered_generic:
  "readable_frames env_no_frames [] = 0 \<and>
   fst (analyze_video env_no_frames (Some (js ''https://youtu.be/dQw4w9WgXcQ'')) state0) =
     Response 500 (ErrorBody msg_generic) \<and>
   msg_generic \<noteq> msg_no_frames \<and>
   \<not> mentions msg_generic (js ''frame'')"
proof -
  have "msg_generic \<noteq> msg_no_frames"
    by (simp add: msg_defs js_def)
  moreover have "\<not> mentions msg_generic (js ''frame'')"
    by (simp add: mentions_def msg_defs js_def upper_ascii_def sublist_Cons_right)
  ultimately show ?thesis
    using analyze_env_no_frames env_no_frames_facts(5) by simp
qed

section \<open>The transcript flag\<close>

lemma pipeline_success:
  "pipeline env plat st = (Inr r, st1) \<Longrightarrow>
     hasTranscript r = (fetch_transcript env \<noteq> []) \<and>
     (\<exists>frames. vision_calls st1 =
        vision_calls st @ [(frames, prompt plat (fetch_transcript env) (frameCount r))])"
  by (auto simp add: pipeline_def Let_def simp del: frame_loop.simps
      split: outcome.splits option.splits if_splits)

lemma cleanup_vision_calls: "vision_calls (cleanup env st) = vision_calls st"
  by (simp add: cleanup_def Let_def split: outcome.splits)

text \<open>
  C10. In a successful response \<^verbatim>\<open>hasTranscript\<close> says whether the parsed transcript is
  non-empty, not whether a subtitle file exists: when the subtitle fetch succeeds and the
  first \<^verbatim>\<open>.vtt\<close> file is read, the flag is true exactly when parsing that file gives a
  non-empty string; and when parsing gives the empty string the prompt sent to the vision
  model is the one with the "No transcript available" sentence.
\<close>

theorem hasTranscript_reports_parsed_text:
  assumes "url \<noteq> []" and "detectPlatform url = Some plat"
    and "fst (analyze_video env (Some url) st) = Response 200 (AnalysisBody r)"
    and "subtitles_result env = Returns ()"
    and "readdir_after_subtitles env = Returns files"
    and "filter (\<lambda>f. ends_with f (js ''.vtt'')) files = f # fs"
    and "readFile_subtitle env f = Returns vtt"
  shows "hasTranscript r = (parseVTT vtt \<noteq> []) \<and>
         (parseVTT vtt = [] \<longrightarrow>
            (\<exists>frames. vision_calls (snd (analyze_video env (Some url) st)) =
               vision_calls st @
                 [(frames,
                   prompt_head @ plat @ prompt_middle @
                   js ''No transcript available '' @ [emdash] @ js '' analyze visuals only.\<newline>\<newline>'' @
                   dec (frameCount r) @ prompt_tail)]))"
proof -
  have ft: "fetch_transcript env = parseVTT vtt"
    using assms(4-7) by (simp add: fetch_transcript_def)
  obtain res st1 where p: "pipeline env plat st = (res, st1)"
    by (cases "pipeline env plat st")
  with assms(1-3) have res: "res = Inr r"
    by (cases res) (simp_all add: analyze_video_pipeline)
  from pipeline_success [OF p [unfolded res]] ft
  have h: "hasTranscript r = (parseVTT vtt \<noteq> [])"
    and "\<exists>frames. vision_calls st1 =
        vision_calls st @ [(frames, prompt plat (parseVTT vtt) (frameCount r))]"
    by simp_all
  then obtain frames where v: "vision_calls st1 =
        vision_calls st @ [(frames, prompt plat (parseVTT vtt) (frameCount r))]"
    by blast
  have "snd (analyze_video env (Some url) st) = cleanup env st1"
    using assms(1,2) p res by (simp add: analyze_video_pipeline)
  with v have "vision_calls (snd (analyze_video env (Some url) st)) =
        vision_calls st @ [(frames, prompt plat (parseVTT vtt) (frameCount r))]"
    by (simp add: cleanup_vision_calls)
  with h show ?thesis
    by (auto simp add: prompt_def transcript_part_def)
qed

lemma analyze_env_ok:
  "fst (analyze_video env_ok (Some (js ''https://youtu.be/dQw4w9WgXcQ'')) state0) =
     Response 200 (AnalysisBody
       \<lparr>analysis = js ''Strong hook.'', platform = js ''youtube'', hasTranscript = False,
        frameCount = 2\<rparr>)"
proof -
  have nz: "readable_frames env_ok [js ''frame01.jpg'', js ''frame00.jpg''] \<noteq> 0"
    by (simp add: env_ok_facts)
  from pipeline_at_frames(2) [OF env_ok_facts(1-5) nz env_ok_facts(7)]
  obtain st1 where "pipeline env_ok (js ''youtube'') state0 =
      (Inr \<lparr>analysis = js ''Strong hook.'', platform = js ''youtube'',
            hasTranscript = (fetch_transcript env_ok \<noteq> []),
            frameCount = readable_frames env_ok [js ''frame01.jpg'', js ''frame00.jpg'']\<rparr>, st1)"
    by blast
  then show ?thesis
    using youtu_be_url
    by (simp add: analyze_video_pipeline fetch_transcript_env_ok env_ok_facts)
qed

theorem hasTranscript_reports_parsed_text_witness:
  "parseVTT vtt_headers_only = [] \<and>
   (\<exists>frames. vision_calls
       (snd (analyze_video env_ok (Some (js ''https://youtu.be/dQw4w9WgXcQ'')) state0)) =
     [(frames,
       prompt_head @ js ''youtube'' @ prompt_middle @
       js ''No transcript available '' @ [emdash] @ js '' analyze visuals only.\<newline>\<newline>'' @
       js ''2'' @ prompt_tail)])"
  using hasTranscript_reports_parsed_text [OF _ _ analyze_env_ok env_ok_facts(8-11)]
    youtu_be_url vtt_headers_only_empty
  by (simp add: state0_def js_def)

section \<open>Frame timestamps\<close>







section \<open>The streamed chat\<close>

lemma relay_never_gone:
  "relay None es c =
     (True, c\<lparr>written := written c @ map TextFrame (texts es), reads := reads c + length es\<rparr>)"
proof (induction es arbitrary: c)
  case Nil
  show ?case by simp
next
  case (Cons e es)
  show ?case
    by (cases e) (simp_all add: Cons.IH destroyed_def tick_def)
qed

lemma relay_written:
  "relay gone es c = (whole, c1) \<Longrightarrow>
     \<exists>ts. prefix ts (texts es) \<and> written c1 = written c @ map TextFrame ts \<and>
          (whole \<longrightarrow> ts = texts es) \<and> chat_stderr c1 = chat_stderr c \<and> ended c1 = ended c"
proof (induction es arbitrary: c)
  case Nil
  then show ?case by auto
next
  case (Cons e es)
  show ?case
  proof (cases "destroyed gone c")
    case True
    with Cons.prems have "c1 = tick c" "\<not> whole" by simp_all
    then show ?thesis by (auto simp: tick_def)
  next
    case False
    show ?thesis
    proof (cases e)
      case (TextDelta t)
      with False Cons.prems
      have "relay gone es ((tick c)\<lparr>written := written c @ [TextFrame t]\<rparr>) = (whole, c1)"
        by simp
      from Cons.IH [OF this] obtain ts where
        "prefix ts (texts es)" "written c1 = (written c @ [TextFrame t]) @ map TextFrame ts"
        "whole \<longrightarrow> ts = texts es" "chat_stderr c1 = chat_stderr c" "ended c1 = ended c"
        by (auto simp: tick_def)
      then show ?thesis
        using TextDelta by (intro exI [of _ "t # ts"]) simp
    next
      case OtherEvent
      with False Cons.prems have "relay gone es (tick c) = (whole, c1)"
        by simp
      from Cons.IH [OF this] OtherEvent show ?thesis
        by (auto simp: tick_def)
    qed
  qed
qed

lemma relay_bound:
  "relay (Some d) es c = (whole, c1) \<Longrightarrow> length (written c) \<le> reads c \<Longrightarrow>
   length (written c) \<le> d \<Longrightarrow>
     length (written c1) \<le> reads c1 \<and> length (written c1) \<le> d"
proof (induction es arbitrary: c)
  case Nil
  then show ?case by simp
next
  case (Cons e es)
  show ?case
  proof (cases "destroyed (Some d) c")
    case True
    with Cons.prems show ?thesis by (auto simp: tick_def)
  next
    case False
    then have lt: "reads c < d" by (simp add: destroyed_def)
    show ?thesis
    proof (cases e)
      case (TextDelta t)
      with False Cons.prems
      have "relay (Some d) es ((tick c)\<lparr>written := written c @ [TextFrame t]\<rparr>) = (whole, c1)"
        by simp
      from Cons.IH [OF this] Cons.prems(2,3) lt show ?thesis
        by (simp add: tick_def)
    next
      case OtherEvent
      with False Cons.prems have "relay (Some d) es (tick c) = (whole, c1)"
        by simp
      from Cons.IH [OF this] Cons.prems(2,3) lt show ?thesis
        by (simp add: tick_def)
    qed
  qed
qed

lemma relay_broken:
  "relay gone es c = (False, c1) \<Longrightarrow> destroyed gone c1"
proof (induction es arbitrary: c)
  case Nil
  then show ?case by simp
next
  case (Cons e es)
  show ?case
  proof (cases "destroyed gone c")
    case True
    with Cons.prems show ?thesis
      by (auto simp: tick_def destroyed_def split: option.splits)
  next
    case False
    with Cons.prems Cons.IH show ?thesis
      by (cases e) auto
  qed
qed

lemma destroyed_tick: "destroyed gone c \<Longrightarrow> destroyed gone (tick c)"
  by (auto simp: destroyed_def tick_def split: option.splits)

lemma destroyed_upd [simp]:
  "destroyed gone (c\<lparr>written := w\<rparr>) = destroyed gone c"
  "destroyed gone (c\<lparr>chat_stderr := l\<rparr>) = destroyed gone c"
  by (simp_all add: destroyed_def split: option.splits)

lemma length_full_stream:
  "length (full_stream es Completed) = Suc (length (texts es))"
  "length (full_stream es (Failed m)) = Suc (Suc (length (texts es)))"
  by (simp_all add: full_stream_def)

lemma full_stream_not_texts:
  assumes "prefix ts (texts es)"
  shows "map TextFrame ts \<noteq> full_stream es en"
    and "map TextFrame ts @ [ErrorFrame x] \<noteq> full_stream es (Failed m)"
proof -
  from assms have l: "length ts \<le> length (texts es)" by (rule prefix_length_le)
  show "map TextFrame ts \<noteq> full_stream es en"
  proof
    assume "map TextFrame ts = full_stream es en"
    then have "length (map TextFrame ts) = length (full_stream es en)" by simp
    with l show False by (cases en) (simp_all add: length_full_stream)
  qed
  show "map TextFrame ts @ [ErrorFrame x] \<noteq> full_stream es (Failed m)"
  proof
    assume "map TextFrame ts @ [ErrorFrame x] = full_stream es (Failed m)"
    then have "length (map TextFrame ts @ [ErrorFrame x]) = length (full_stream es (Failed m))"
      by simp
    with l show False by (simp add: length_full_stream)
  qed
qed

lemma chat_stream_prefix:
  "prefix (written (chat_stream gone es en conn0)) (full_stream es en) \<and>
   (ended (chat_stream gone es en conn0) \<longleftrightarrow>
      written (chat_stream gone es en conn0) = full_stream es en)"
proof -
  obtain whole c1 where r: "relay gone es conn0 = (whole, c1)"
    by (cases "relay gone es conn0")
  from relay_written [OF r] obtain ts where ts: "prefix ts (texts es)"
    "written c1 = map TextFrame ts" "whole \<longrightarrow> ts = texts es" "ended c1 = False"
    by (auto simp: conn0_def)
  have pre: "prefix (map TextFrame ts) (full_stream es en)"
    using ts(1) by (auto simp: full_stream_def prefix_def)
  show ?thesis
  proof (cases whole)
    case False
    with r have "destroyed gone c1" by (simp add: relay_broken)
    then show ?thesis
      using r False ts pre full_stream_not_texts(1) [OF ts(1), of en]
      by (cases en) (simp_all add: chat_stream_def tick_def)
  next
    case True
    with ts have w: "written c1 = map TextFrame (texts es)" by simp
    show ?thesis
    proof (cases en)
      case Completed
      then show ?thesis
        using r True w ts(4) full_stream_not_texts(1) [of "texts es" es Completed]
        by (simp add: chat_stream_def tick_def full_stream_def)
    next
      case (Failed m)
      show ?thesis
      proof (cases "destroyed gone c1")
        case d: True
        then have "destroyed gone (tick (c1\<lparr>chat_stderr := chat_stderr c1 @ [js ''Stream error: '' @ m]\<rparr>))"
          by (simp add: destroyed_tick)
        then show ?thesis
          using r True w ts(4) d Failed full_stream_not_texts(1) [of "texts es" es "Failed m"]
          by (simp add: chat_stream_def Let_def tick_def full_stream_def)
      next
        case d: False
        then show ?thesis
          using r True w ts(4) Failed
            full_stream_not_texts(2) [of "texts es" es "js ''Something went wrong. Please try again.''" m]
          by (simp add: chat_stream_def Let_def tick_def full_stream_def)
      qed
    qed
  qed
qed

lemma chat_stream_never_gone:
  "written (chat_stream None es en conn0) = full_stream es en \<and> ended (chat_stream None es en conn0)"
  by (cases en) (simp_all add: chat_stream_def relay_never_gone destroyed_def tick_def
      full_stream_def conn0_def Let_def)

lemma chat_stream_bound:
  "length (written (chat_stream (Some d) es en conn0)) \<le> d"
proof -
  obtain whole c1 where r: "relay (Some d) es conn0 = (whole, c1)"
    by (cases "relay (Some d) es conn0")
  from relay_bound [OF r] have b: "length (written c1) \<le> reads c1" "length (written c1) \<le> d"
    by (simp_all add: conn0_def)
  show ?thesis
    using r b
    by (cases en) (auto simp: chat_stream_def Let_def tick_def destroyed_def)
qed

text \<open>
  C4. For every request with a non-empty array of messages the handler streams, and what it
  writes is a prefix of the full stream: the fragments in the order the model emits them,
  then one error event with the generic message if the stream failed, then the sentinel.
  The connection is ended exactly when the whole of it has been written, which is the case
  whenever the caller never disconnects. A caller gone from the read number \<open>d\<close> of
  \<^verbatim>\<open>res.destroyed\<close> on gets at most \<open>d\<close> writes: every write follows a read that found the
  caller still there, so nothing is written once the caller is gone.
\<close>

theorem chat_order_and_sentinel:
  assumes "ms \<noteq> []"
  shows "\<exists>c. chat gone events ending (Some ms) = Streamed c \<and>
           prefix (written c) (full_stream events ending) \<and>
           (ended c \<longleftrightarrow> written c = full_stream events ending) \<and>
           (gone = None \<longrightarrow> written c = full_stream events ending \<and> ended c) \<and>
           (\<forall>d. gone = Some d \<longrightarrow> length (written c) \<le> d)"
  using assms chat_stream_prefix [of gone events ending] chat_stream_never_gone [of events ending]
    chat_stream_bound [of _ events ending]
  by (auto simp: chat_def conn0_def)

theorem chat_order_and_sentinel_witness:
  "(\<exists>c. chat None [TextDelta (js ''Hello''), TextDelta (js '' there'')] Completed (Some [()]) =
         Streamed c \<and>
       written c = [TextFrame (js ''Hello''), TextFrame (js '' there''), DoneFrame] \<and> ended c) \<and>
   (\<exists>c. chat (Some 1) [TextDelta (js ''Hello''), TextDelta (js '' there'')] (Failed (js ''overloaded''))
           (Some [()]) = Streamed c \<and>
       prefix (written c)
         [TextFrame (js ''Hello''), TextFrame (js '' there''),
          ErrorFrame (js ''Something went wrong. Please try again.''), DoneFrame] \<and>
       length (written c) \<le> 1 \<and> \<not> ended c)"
  using chat_order_and_sentinel [of "[()]" None "[TextDelta (js ''Hello''), TextDelta (js '' there'')]" Completed]
    chat_order_and_sentinel [of "[()]" "Some 1" "[TextDelta (js ''Hello''), TextDelta (js '' there'')]"
      "Failed (js ''overloaded'')"]
  by (auto simp: full_stream_def)

section \<open>Validation and storage of emails\<close>

lemma set_rx_plus_class:
  "set (rx_matches (RPlus (RClass P)) []) = {}"
  "set (rx_matches (RPlus (RClass P)) (c # cs)) =
     (if P c then insert cs (set (rx_matches (RPlus (RClass P)) cs)) else {})"
  by (simp_all only: rx_plus_class set_append list.set if_distrib [of set]
      Un_insert_right Un_empty_right)

lemma in_rx_plus_class:
  "r \<in> set (rx_matches (RPlus (RClass P)) s) \<longleftrightarrow>
     (\<exists>m. m \<noteq> [] \<and> s = m @ r \<and> (\<forall>c \<in> set m. P c))"
proof (induction s)
  case Nil
  show ?case by (simp only: set_rx_plus_class) simp
next
  case (Cons c cs)
  have unfold: "r \<in> set (rx_matches (RPlus (RClass P)) (c # cs)) \<longleftrightarrow>
      P c \<and> (r = cs \<or> r \<in> set (rx_matches (RPlus (RClass P)) cs))"
    by (simp only: set_rx_plus_class) (simp del: rx_matches.simps)
  show ?case
  proof
    assume "r \<in> set (rx_matches (RPlus (RClass P)) (c # cs))"
    with unfold have pc: "P c" and "r \<in> set (rx_matches (RPlus (RClass P)) cs) \<or> r = cs"
      by blast+
    then consider m where "m \<noteq> []" "cs = m @ r" "\<forall>c \<in> set m. P c" | "r = cs"
      using Cons.IH by blast
    then show "\<exists>m. m \<noteq> [] \<and> c # cs = m @ r \<and> (\<forall>c \<in> set m. P c)"
    proof cases
      case 1
      with pc show ?thesis by (intro exI [of _ "c # m"]) simp
    next
      case 2
      with pc show ?thesis by (intro exI [of _ "[c]"]) simp
    qed
  next
    assume "\<exists>m. m \<noteq> [] \<and> c # cs = m @ r \<and> (\<forall>c \<in> set m. P c)"
    then obtain m where m: "m \<noteq> []" "c # cs = m @ r" "\<forall>c \<in> set m. P c" by blast
    then obtain m' where m': "m = c # m'" "cs = m' @ r"
      by (cases m) simp_all
    with m have pc: "P c" and pm: "\<forall>c \<in> set m'. P c" by simp_all
    show "r \<in> set (rx_matches (RPlus (RClass P)) (c # cs))"
    proof (cases "m' = []")
      case True
      with m' pc unfold show ?thesis by simp
    next
      case False
      with m' pm Cons.IH have "r \<in> set (rx_matches (RPlus (RClass P)) cs)" by blast
      with pc unfold show ?thesis by blast
    qed
  qed
qed

lemma in_rx_class:
  "r \<in> set (rx_matches (RClass P) s) \<longleftrightarrow> (\<exists>c. s = c # r \<and> P c)"
  by (cases s) auto

lemma in_rx_seq:
  "r \<in> set (rx_matches (RSeq a b) s) \<longleftrightarrow> (\<exists>t \<in> set (rx_matches a s). r \<in> set (rx_matches b t))"
  by auto

lemma in_rx_seqI:
  "t \<in> set (rx_matches a s) \<Longrightarrow> r \<in> set (rx_matches b t) \<Longrightarrow> r \<in> set (rx_matches (RSeq a b) s)"
  by auto

lemma in_rx_end: "r \<in> set (rx_matches REnd s) \<longleftrightarrow> s = [] \<and> r = []"
  by auto

lemma rx_match_start_iff: "rx_match_start r s \<longleftrightarrow> (\<exists>t. t \<in> set (rx_matches r s))"
  by (cases "rx_matches r s") (auto simp: rx_match_start_def)

lemma email_rx_shape: "rx_match_start email_rx e \<longleftrightarrow> email_shape e"
proof -
  let ?C = "RPlus (RClass (\<lambda>c. \<not> is_space c \<and> c \<noteq> ch CHR ''@''))"
  show ?thesis
  proof
  assume "rx_match_start email_rx e"
  then obtain r where "r \<in> set (rx_matches email_rx e)"
    by (auto simp: rx_match_start_iff)
  then obtain t1 t2 t3 t4 t5 where
    t1: "t1 \<in> set (rx_matches ?C e)" and
    t2: "t2 \<in> set (rx_matches (RClass (\<lambda>c. c = ch CHR ''@'')) t1)" and
    t3: "t3 \<in> set (rx_matches ?C t2)" and
    t4: "t4 \<in> set (rx_matches (RClass (\<lambda>c. c = ch CHR ''.'')) t3)" and
    t5: "t5 \<in> set (rx_matches ?C t4)" and
    r: "r \<in> set (rx_matches REnd t5)"
    unfolding email_rx_def in_rx_seq by blast
  from t1 obtain l where l: "l \<noteq> []" "e = l @ t1" "\<forall>c \<in> set l. \<not> is_space c \<and> c \<noteq> ch CHR ''@''"
    unfolding in_rx_plus_class by blast
  from t2 have t1': "t1 = ch CHR ''@'' # t2"
    unfolding in_rx_class by blast
  from t3 obtain d where d: "d \<noteq> []" "t2 = d @ t3" "\<forall>c \<in> set d. \<not> is_space c \<and> c \<noteq> ch CHR ''@''"
    unfolding in_rx_plus_class by blast
  from t4 have t3': "t3 = ch CHR ''.'' # t4"
    unfolding in_rx_class by blast
  from t5 obtain t where t: "t \<noteq> []" "t4 = t @ t5" "\<forall>c \<in> set t. \<not> is_space c \<and> c \<noteq> ch CHR ''@''"
    unfolding in_rx_plus_class by blast
  from r have t5': "t5 = []"
    unfolding in_rx_end by blast
  have eq: "e = l @ [ch CHR ''@''] @ d @ [ch CHR ''.''] @ t"
    using l(2) t1' d(2) t3' t(2) t5' by (simp only: append_Cons append_Nil append_Nil2)
  have all: "\<forall>c \<in> set (l @ d @ t). \<not> is_space c \<and> c \<noteq> ch CHR ''@''"
    using l(3) d(3) t(3) by (simp only: set_append ball_Un)
  show "email_shape e"
    unfolding email_shape_def using eq l(1) d(1) t(1) all by blast
next
  assume "email_shape e"
  then obtain l d t where e0: "e = l @ [ch CHR ''@''] @ d @ [ch CHR ''.''] @ t"
    and e: "l \<noteq> []" "d \<noteq> []" "t \<noteq> []"
    and all: "\<forall>c \<in> set (l @ d @ t). \<not> is_space c \<and> c \<noteq> ch CHR ''@''"
    unfolding email_shape_def by blast
  from e0 have e1: "e = l @ ch CHR ''@'' # d @ ch CHR ''.'' # t"
    by (simp only: append_Cons append_Nil)
  from all have al: "\<forall>c \<in> set l. \<not> is_space c \<and> c \<noteq> ch CHR ''@''"
    and ad: "\<forall>c \<in> set d. \<not> is_space c \<and> c \<noteq> ch CHR ''@''"
    and at: "\<forall>c \<in> set t. \<not> is_space c \<and> c \<noteq> ch CHR ''@''"
    by (simp_all add: ball_Un)
  have 1: "[] \<in> set (rx_matches REnd [])"
    by simp
  have 2: "[] \<in> set (rx_matches ?C t)"
    unfolding in_rx_plus_class using e(3) at by blast
  have 3: "t \<in> set (rx_matches (RClass (\<lambda>c. c = ch CHR ''.'')) (ch CHR ''.'' # t))"
    unfolding in_rx_class by blast
  have 4: "ch CHR ''.'' # t \<in> set (rx_matches ?C
             (d @ ch CHR ''.'' # t))"
    unfolding in_rx_plus_class using e(2) ad by blast
  have 5: "d @ ch CHR ''.'' # t \<in> set (rx_matches (RClass (\<lambda>c. c = ch CHR ''@''))
             (ch CHR ''@'' # d @ ch CHR ''.'' # t))"
    unfolding in_rx_class by blast
  have 6: "ch CHR ''@'' # d @ ch CHR ''.'' # t \<in>
             set (rx_matches ?C e)"
    unfolding in_rx_plus_class using e1 e(1) al by blast
  from 2 1 have "[] \<in> set (rx_matches (RSeq ?C REnd) t)"
    by (rule in_rx_seqI)
  with 3 have "[] \<in> set (rx_matches (RSeq (RClass (\<lambda>c. c = ch CHR ''.'')) (RSeq ?C REnd))
                  (ch CHR ''.'' # t))"
    by (rule in_rx_seqI)
  with 4 have "[] \<in> set (rx_matches (RSeq ?C (RSeq (RClass (\<lambda>c. c = ch CHR ''.'')) (RSeq ?C REnd)))
                  (d @ ch CHR ''.'' # t))"
    by (rule in_rx_seqI)
  with 5 have "[] \<in> set (rx_matches (RSeq (RClass (\<lambda>c. c = ch CHR ''@''))
                    (RSeq ?C (RSeq (RClass (\<lambda>c. c = ch CHR ''.'')) (RSeq ?C REnd))))
                  (ch CHR ''@'' # d @ ch CHR ''.'' # t))"
    by (rule in_rx_seqI)
  with 6 have "[] \<in> set (rx_matches email_rx e)"
    unfolding email_rx_def by (rule in_rx_seqI)
  then show "rx_match_start email_rx e"
    unfolding rx_match_start_iff by blast
  qed
qed


lemma no_at_no_shape: "ch CHR ''@'' \<notin> set e \<Longrightarrow> \<not> email_shape e"
  unfolding email_shape_def by auto

lemma no_dot_no_shape:
  assumes "e = l @ [ch CHR ''@''] @ d" and "ch CHR ''.'' \<notin> set d"
  shows "\<not> email_shape e"
proof
  assume "email_shape e"
  then obtain l' d' t' where e: "e = l' @ [ch CHR ''@''] @ d' @ [ch CHR ''.''] @ t'"
    and all: "\<forall>c \<in> set (l' @ d' @ t'). \<not> is_space c \<and> c \<noteq> ch CHR ''@''"
    unfolding email_shape_def by blast
  from all have nl: "ch CHR ''@'' \<notin> set l'" and nd: "ch CHR ''@'' \<notin> set (d' @ [ch CHR ''.''] @ t')"
    by auto
  from assms(1) e have eq: "l @ ch CHR ''@'' # d = l' @ ch CHR ''@'' # (d' @ [ch CHR ''.''] @ t')"
    by simp
  have "d = d' @ [ch CHR ''.''] @ t'"
  proof -
    from eq consider us where "l = l' @ us" "us @ ch CHR ''@'' # d = ch CHR ''@'' # (d' @ [ch CHR ''.''] @ t')"
      | us where "l @ us = l'" "ch CHR ''@'' # d = us @ ch CHR ''@'' # (d' @ [ch CHR ''.''] @ t')"
      by (auto simp: append_eq_append_conv2)
    then show ?thesis
    proof cases
      case 1
      show ?thesis
      proof (cases us)
        case Nil
        with 1 show ?thesis by simp
      next
        case (Cons u us')
        with 1 have "us' @ ch CHR ''@'' # d = d' @ [ch CHR ''.''] @ t'" by simp
        then have "ch CHR ''@'' \<in> set (d' @ [ch CHR ''.''] @ t')"
          by (metis in_set_conv_decomp)
        with nd show ?thesis by blast
      qed
    next
      case 2
      show ?thesis
      proof (cases us)
        case Nil
        with 2 show ?thesis by simp
      next
        case (Cons u us')
        with 2 have "u = ch CHR ''@''" by simp
        with Cons 2(1) have "ch CHR ''@'' \<in> set l'" by auto
        with nl show ?thesis by blast
      qed
    qed
  qed
  with assms(2) show False by simp
qed

text \<open>
  C8. An email string that does not have the shape \<^verbatim>\<open>local@domain.tld\<close> is answered with
  status 400 and the message "Invalid email address", and the state is left as it was, so
  nothing is appended to the log file. This covers a string without \<^verbatim>\<open>@\<close>, a string with no
  dot after an \<^verbatim>\<open>@\<close>, and a request without the field.
\<close>

theorem invalid_email_rejected:
  "(ch CHR ''@'' \<notin> set e \<longrightarrow> rejected_email env (Some e) st) \<and>
   (\<forall>l d. e = l @ [ch CHR ''@''] @ d \<and> ch CHR ''.'' \<notin> set d \<longrightarrow> rejected_email env (Some e) st) \<and>
   (\<not> email_shape e \<longrightarrow> rejected_email env (Some e) st) \<and>
   rejected_email env None st"
proof -
  have "rejected_email env (Some e) st" if "\<not> email_shape e"
    using that by (simp add: rejected_email_def save_email_def email_rx_shape)
  then show ?thesis
    using no_at_no_shape [of e] no_dot_no_shape [of e]
    by (auto simp: rejected_email_def save_email_def simp del: of_char_Char)
qed

theorem invalid_email_rejected_witness:
  "rejected_email email_env_ok (Some (js ''creator.example.com'')) email_state0 \<and>
   rejected_email email_env_ok (Some (js ''creator@localhost'')) email_state0"
proof -
  have 1: "ch CHR ''@'' \<notin> set (js ''creator.example.com'')"
    by (simp add: js_def)
  have 2: "js ''creator@localhost'' = js ''creator'' @ [ch CHR ''@''] @ js ''localhost'' \<and>
           ch CHR ''.'' \<notin> set (js ''localhost'')"
    by (simp add: js_def)
  from 1 invalid_email_rejected [of "js ''creator.example.com''" email_env_ok email_state0]
  have a: "rejected_email email_env_ok (Some (js ''creator.example.com'')) email_state0"
    by blast
  from 2 invalid_email_rejected [of "js ''creator@localhost''" email_env_ok email_state0]
  have b: "rejected_email email_env_ok (Some (js ''creator@localhost'')) email_state0"
    by blast
  from a b show ?thesis by simp
qed




section \<open>What transcript parsing removes\<close>

lemma starts_with_prefix: "starts_with s p \<longleftrightarrow> prefix p s"
proof
  assume "starts_with s p"
  then have "s = p @ drop (length p) s"
    unfolding starts_with_def by (metis append_take_drop_id)
  then show "prefix p s" by (rule prefixI)
next
  assume "prefix p s"
  then show "starts_with s p"
    by (auto simp: starts_with_def prefix_def)
qed

lemma timestamp_rx_start: "rx_match_start timestamp_rx l \<longleftrightarrow> timestamp_start l"
proof
  assume "rx_match_start timestamp_rx l"
  then obtain r where "r \<in> set (rx_matches timestamp_rx l)"
    by (auto simp: rx_match_start_iff)
  then obtain t1 t2 t3 t4 where
    "t1 \<in> set (rx_matches (RClass is_digit) l)"
    "t2 \<in> set (rx_matches (RClass is_digit) t1)"
    "t3 \<in> set (rx_matches (RClass (\<lambda>c. c = ch CHR '':'')) t2)"
    "t4 \<in> set (rx_matches (RClass is_digit) t3)"
    "r \<in> set (rx_matches (RClass is_digit) t4)"
    unfolding timestamp_rx_def in_rx_seq by blast
  then show "timestamp_start l"
    unfolding in_rx_class timestamp_start_def by blast
next
  assume "timestamp_start l"
  then obtain a b c d rest where l: "l = a # b # ch CHR '':'' # c # d # rest"
    and dg: "is_digit a" "is_digit b" "is_digit c" "is_digit d"
    unfolding timestamp_start_def by blast
  have "rest \<in> set (rx_matches timestamp_rx l)"
    unfolding timestamp_rx_def l using dg by simp
  then show "rx_match_start timestamp_rx l"
    unfolding rx_match_start_iff by blast
qed

lemma keep_line_marker: "keep_line l \<longleftrightarrow> l \<noteq> [] \<and> \<not> marker_line l"
  by (auto simp: keep_line_def marker_line_def starts_with_prefix timestamp_rx_start)

lemma split_on_no_sep: "d \<notin> set l \<Longrightarrow> split_on d l = [l]"
  by (induction l) auto

lemma split_on_append_sep:
  "d \<notin> set l \<Longrightarrow> split_on d (l @ d # rest) = l # split_on d rest"
  by (induction l) auto

lemma split_on_join:
  "ls \<noteq> [] \<Longrightarrow> \<forall>l \<in> set ls. d \<notin> set l \<Longrightarrow> split_on d (join [d] ls) = ls"
proof (induction "[d]" ls rule: join.induct)
  case 1
  then show ?case by simp
next
  case (2 l)
  then show ?case by (simp add: split_on_no_sep)
next
  case (3 l m ls)
  then show ?case by (simp add: split_on_append_sep)
qed

lemma filter_keep_split_join:
  assumes "\<forall>l \<in> set ls. 0x0A \<notin> set l"
  shows "filter keep_line (split_on 0x0A (join [0x0A] ls)) = filter keep_line ls"
proof (cases "ls = []")
  case True
  then show ?thesis by (simp add: keep_line_def)
next
  case False
  with assms show ?thesis by (simp add: split_on_join)
qed

lemma parseVTT_drops_marker_lines:
  assumes "\<forall>l \<in> set ls. 0x0A \<notin> set l"
  shows "parseVTT (join [0x0A] ls) = parseVTT (join [0x0A] (filter (\<lambda>l. \<not> marker_line l) ls))"
proof -
  have "filter keep_line (split_on 0x0A (join [0x0A] (filter (\<lambda>l. \<not> marker_line l) ls))) =
        filter keep_line (filter (\<lambda>l. \<not> marker_line l) ls)"
    using assms by (intro filter_keep_split_join) simp
  also have "\<dots> = filter keep_line ls"
    by (simp add: keep_line_marker conj_commute cong: filter_cong)
  also have "\<dots> = filter keep_line (split_on 0x0A (join [0x0A] ls))"
    using assms by (simp add: filter_keep_split_join)
  finally show ?thesis
    by (simp add: parseVTT_def)
qed

lemma split_on_nonempty: "split_on d s \<noteq> []"
  by (induction s) (auto split: list.splits)

lemma split_on_pieces: "l \<in> set (split_on d s) \<Longrightarrow> d \<notin> set l"
proof (induction s arbitrary: l)
  case Nil
  then show ?case by simp
next
  case (Cons c cs)
  show ?case
  proof (cases "c = d")
    case True
    with Cons show ?thesis by auto
  next
    case False
    obtain p ps where p: "split_on d cs = p # ps"
      using split_on_nonempty [of d cs] by (cases "split_on d cs") auto
    with Cons False show ?thesis by auto
  qed
qed

lemma join_split_on: "join [d] (split_on d s) = s"
proof (induction s)
  case Nil
  show ?case by simp
next
  case (Cons c cs)
  obtain p ps where p: "split_on d cs = p # ps"
    using split_on_nonempty [of d cs] by (cases "split_on d cs") auto
  show ?case
  proof (cases "c = d")
    case True
    with Cons p show ?thesis by simp
  next
    case False
    with Cons p show ?thesis by (cases ps) simp_all
  qed
qed

lemma parseVTT_without_marker_lines:
  "parseVTT vtt = parseVTT (join [0x0A] (filter (\<lambda>l. \<not> marker_line l) (split_on 0x0A vtt)))"
  using parseVTT_drops_marker_lines [of "split_on 0x0A vtt"] split_on_pieces [of _ "0x0A" vtt]
  by (simp add: join_split_on)

lemma plus_class_then_other:
  assumes "\<And>c. Q c \<longleftrightarrow> \<not> P c"
  shows "concat (map (rx_matches (RClass Q)) (rx_matches (RPlus (RClass P)) s)) =
           (if s \<noteq> [] \<and> P (hd s) \<and> dropWhile P s \<noteq> [] then [tl (dropWhile P s)] else [])"
proof (induction s)
  case Nil
  show ?case by (simp add: rx_plus_class)
next
  case (Cons c cs)
  show ?case
  proof (cases "P c")
    case False
    then show ?thesis by (simp add: rx_plus_class)
  next
    case True
    show ?thesis
    proof (cases cs)
      case Nil
      with True show ?thesis by (simp add: rx_plus_class)
    next
      case (Cons d ds)
      show ?thesis
      proof (cases "P d")
        case pd: True
        with True Cons Cons.IH assms show ?thesis
          by (simp add: rx_plus_class)
      next
        case pd: False
        with True Cons assms show ?thesis
          by (simp add: rx_plus_class)
      qed
    qed
  qed
qed

lemma rx_matches_tag:
  "rx_matches tag_rx [] = []"
  "rx_matches tag_rx (c # cs) =
     (if c = ch CHR ''<'' \<and> cs \<noteq> [] \<and> hd cs \<noteq> ch CHR ''>'' \<and> ch CHR ''>'' \<in> set cs
      then [tl (dropWhile (\<lambda>x. x \<noteq> ch CHR ''>'') cs)] else [])"
proof -
  show "rx_matches tag_rx [] = []"
    by (simp add: tag_rx_def)
  have nonempty: "dropWhile (\<lambda>x. x \<noteq> ch CHR ''>'') cs \<noteq> [] \<longleftrightarrow> ch CHR ''>'' \<in> set cs"
    by (induction cs) auto
  have "rx_matches tag_rx (c # cs) =
      (if c = ch CHR ''<''
       then concat (map (rx_matches (RClass (\<lambda>x. x = ch CHR ''>'')))
              (rx_matches (RPlus (RClass (\<lambda>x. x \<noteq> ch CHR ''>''))) cs))
       else [])"
    by (simp add: tag_rx_def)
  also have "\<dots> =
      (if c = ch CHR ''<'' \<and> cs \<noteq> [] \<and> hd cs \<noteq> ch CHR ''>'' \<and> ch CHR ''>'' \<in> set cs
       then [tl (dropWhile (\<lambda>x. x \<noteq> ch CHR ''>'') cs)] else [])"
    by (subst plus_class_then_other) (auto simp: nonempty)
  finally show "rx_matches tag_rx (c # cs) =
     (if c = ch CHR ''<'' \<and> cs \<noteq> [] \<and> hd cs \<noteq> ch CHR ''>'' \<and> ch CHR ''>'' \<in> set cs
      then [tl (dropWhile (\<lambda>x. x \<noteq> ch CHR ''>'') cs)] else [])" .
qed

lemma length_tl_dropWhile: "length (dropWhile P cs) - Suc 0 < Suc (length cs)"
  using length_dropWhile_le [of P cs] by simp

lemma strip_tags_simps:
  "strip_tags [] = []"
  "strip_tags (c # cs) =
     (if c = ch CHR ''<'' \<and> cs \<noteq> [] \<and> hd cs \<noteq> ch CHR ''>'' \<and> ch CHR ''>'' \<in> set cs
      then strip_tags (tl (dropWhile (\<lambda>x. x \<noteq> ch CHR ''>'') cs))
      else c # strip_tags cs)"
proof -
  show "strip_tags [] = []"
    by (subst rx_replace_all.simps) (simp add: rx_matches_tag del: rx_replace_all.simps)
  show "strip_tags (c # cs) =
     (if c = ch CHR ''<'' \<and> cs \<noteq> [] \<and> hd cs \<noteq> ch CHR ''>'' \<and> ch CHR ''>'' \<in> set cs
      then strip_tags (tl (dropWhile (\<lambda>x. x \<noteq> ch CHR ''>'') cs))
      else c # strip_tags cs)"
    by (subst rx_replace_all.simps)
      (simp add: rx_matches_tag length_tl_dropWhile del: rx_replace_all.simps of_char_Char)
qed

lemma rx_test_tag:
  "rx_test tag_rx [] = False"
  "rx_test tag_rx (c # cs) =
     ((c = ch CHR ''<'' \<and> cs \<noteq> [] \<and> hd cs \<noteq> ch CHR ''>'' \<and> ch CHR ''>'' \<in> set cs) \<or>
      rx_test tag_rx cs)"
  by (auto simp: rx_matches_tag simp del: of_char_Char)

lemma plus_class_first:
  "P c \<Longrightarrow> \<exists>rest. rx_matches (RPlus (RClass P)) (c # cs) = dropWhile P cs # rest"
proof (induction cs arbitrary: c)
  case Nil
  then show ?case by (simp add: rx_plus_class)
next
  case (Cons d ds)
  show ?case
  proof (cases "P d")
    case True
    from Cons.IH [OF True] obtain rest where
      "rx_matches (RPlus (RClass P)) (d # ds) = dropWhile P ds # rest" by blast
    with Cons.prems True show ?thesis by (simp add: rx_plus_class)
  next
    case False
    with Cons.prems show ?thesis by (simp add: rx_plus_class)
  qed
qed

lemma collapse_simps:
  "collapse [] = []"
  "collapse (c # cs) =
     (if is_space c then 0x20 # collapse (dropWhile is_space cs) else c # collapse cs)"
proof -
  show "collapse [] = []"
    by (subst rx_replace_all.simps) (simp add: spaces_rx_def rx_plus_class del: rx_replace_all.simps)
  show "collapse (c # cs) =
     (if is_space c then 0x20 # collapse (dropWhile is_space cs) else c # collapse cs)"
  proof (cases "is_space c")
    case True
    from plus_class_first [of is_space c cs, OF True] obtain rest where
      "rx_matches (RPlus (RClass is_space)) (c # cs) = dropWhile is_space cs # rest" by blast
    with True show ?thesis
      by (subst rx_replace_all.simps)
        (simp add: spaces_rx_def js_def length_dropWhile_le le_imp_less_Suc
          del: rx_replace_all.simps)
  next
    case False
    then show ?thesis
      by (subst rx_replace_all.simps)
        (simp add: spaces_rx_def rx_plus_class del: rx_replace_all.simps)
  qed
qed

lemma rx_test_tag_append_left: "rx_test tag_rx r \<Longrightarrow> rx_test tag_rx (p @ r)"
  by (induction p) (simp_all add: rx_test_tag del: rx_test.simps of_char_Char)

lemma rx_test_tag_append_right: "rx_test tag_rx r \<Longrightarrow> rx_test tag_rx (r @ q)"
proof (induction r)
  case Nil
  then show ?case by (simp add: rx_test_tag del: rx_test.simps)
next
  case (Cons c cs)
  then show ?case
    by (cases cs) (auto simp: rx_test_tag simp del: rx_test.simps of_char_Char)
qed

lemma rx_test_tag_sublist: "sublist r r' \<Longrightarrow> rx_test tag_rx r \<Longrightarrow> rx_test tag_rx r'"
  unfolding sublist_def
  using rx_test_tag_append_left rx_test_tag_append_right by blast

lemma set_strip_tags: "set (strip_tags s) \<subseteq> set s"
proof (induction "length s" arbitrary: s rule: less_induct)
  case less
  show ?case
  proof (cases s)
    case Nil
    then show ?thesis by (simp add: strip_tags_simps del: rx_replace_all.simps)
  next
    case (Cons c cs)
    let ?rest = "tl (dropWhile (\<lambda>x. x \<noteq> ch CHR ''>'') cs)"
    have "set (tl xs) \<subseteq> set xs" for xs :: jsstring
      by (cases xs) auto
    moreover have "set (dropWhile (\<lambda>x. x \<noteq> ch CHR ''>'') cs) \<subseteq> set cs"
      by (meson set_dropWhileD subsetI)
    ultimately have sub: "set ?rest \<subseteq> set cs"
      by blast
    have len: "length ?rest < length s"
      using Cons length_dropWhile_le [of "\<lambda>x. x \<noteq> ch CHR ''>''" cs] by simp
    from less [OF len] sub have 1: "set (strip_tags ?rest) \<subseteq> set s"
      using Cons by auto
    have "length cs < length s" using Cons by simp
    from less [OF this] have 2: "set (strip_tags cs) \<subseteq> set cs" .
    show ?thesis
      using 1 2 Cons
      by (auto simp: strip_tags_simps simp del: rx_replace_all.simps of_char_Char)
  qed
qed

lemma strip_tags_no_tag: "\<not> rx_test tag_rx (strip_tags s)"
proof (induction "length s" arbitrary: s rule: less_induct)
  case less
  show ?case
  proof (cases s)
    case Nil
    then show ?thesis
      by (simp add: strip_tags_simps rx_test_tag del: rx_replace_all.simps rx_test.simps)
  next
    case (Cons c cs)
    let ?rest = "tl (dropWhile (\<lambda>x. x \<noteq> ch CHR ''>'') cs)"
    let ?match = "c = ch CHR ''<'' \<and> cs \<noteq> [] \<and> hd cs \<noteq> ch CHR ''>'' \<and> ch CHR ''>'' \<in> set cs"
    have len: "length ?rest < length s"
      using Cons length_dropWhile_le [of "\<lambda>x. x \<noteq> ch CHR ''>''" cs] by simp
    have lcs: "length cs < length s" using Cons by simp
    show ?thesis
    proof (cases ?match)
      case True
      with Cons less [OF len] show ?thesis
        by (simp add: strip_tags_simps del: rx_replace_all.simps rx_test.simps of_char_Char)
    next
      case False
      have eq: "strip_tags s = c # strip_tags cs"
        unfolding Cons by (simp only: strip_tags_simps False if_False)
      have "\<not> (c = ch CHR ''<'' \<and> strip_tags cs \<noteq> [] \<and> hd (strip_tags cs) \<noteq> ch CHR ''>'' \<and>
                ch CHR ''>'' \<in> set (strip_tags cs))"
      proof
        assume a: "c = ch CHR ''<'' \<and> strip_tags cs \<noteq> [] \<and> hd (strip_tags cs) \<noteq> ch CHR ''>'' \<and>
                ch CHR ''>'' \<in> set (strip_tags cs)"
        then have gt: "ch CHR ''>'' \<in> set cs" using set_strip_tags [of cs] by blast
        then have ne: "cs \<noteq> []" by auto
        with a gt False have hd: "hd cs = ch CHR ''>''" by blast
        from ne hd obtain ds where cs: "cs = ch CHR ''>'' # ds" by (cases cs) auto
        have "strip_tags cs = ch CHR ''>'' # strip_tags ds"
          unfolding cs by (simp add: strip_tags_simps del: rx_replace_all.simps)
        with a show False by simp
      qed
      with less [OF lcs] eq show ?thesis
        by (simp add: rx_test_tag del: rx_replace_all.simps rx_test.simps of_char_Char)
    qed
  qed
qed

lemma set_collapse: "set (collapse s) \<subseteq> insert 0x20 (set s)"
proof (induction "length s" arbitrary: s rule: less_induct)
  case less
  show ?case
  proof (cases s)
    case Nil
    then show ?thesis by (simp add: collapse_simps del: rx_replace_all.simps)
  next
    case (Cons c cs)
    have len: "length (dropWhile is_space cs) < length s"
      using Cons length_dropWhile_le [of is_space cs] by simp
    have lcs: "length cs < length s" using Cons by simp
    have "set (dropWhile is_space cs) \<subseteq> set cs"
      by (meson set_dropWhileD subsetI)
    with less [OF len] less [OF lcs] Cons show ?thesis
      by (auto simp: collapse_simps simp del: rx_replace_all.simps)
  qed
qed

lemma collapse_spaces_plain: "x \<in> set (collapse s) \<Longrightarrow> is_space x \<Longrightarrow> x = 0x20"
proof (induction "length s" arbitrary: s rule: less_induct)
  case less
  show ?case
  proof (cases s)
    case Nil
    with less.prems show ?thesis by (simp add: collapse_simps del: rx_replace_all.simps)
  next
    case (Cons c cs)
    have len: "length (dropWhile is_space cs) < length s"
      using Cons length_dropWhile_le [of is_space cs] by simp
    have lcs: "length cs < length s" using Cons by simp
    from less.hyps [OF len] less.hyps [OF lcs] less.prems Cons show ?thesis
      by (auto simp: collapse_simps simp del: rx_replace_all.simps split: if_splits)
  qed
qed

lemma collapse_head:
  "\<not> is_space c \<Longrightarrow> collapse (c # cs) = c # collapse cs"
  by (simp add: collapse_simps del: rx_replace_all.simps)

lemma adjacent_spaces_Cons:
  "adjacent_spaces (x # r) \<longleftrightarrow> (is_space x \<and> r \<noteq> [] \<and> is_space (hd r)) \<or> adjacent_spaces r"
  unfolding adjacent_spaces_def sublist_Cons_right
  by (cases r) auto

lemma collapse_no_adjacent: "\<not> adjacent_spaces (collapse s)"
proof (induction "length s" arbitrary: s rule: less_induct)
  case less
  show ?case
  proof (cases s)
    case Nil
    then show ?thesis
      by (simp add: collapse_simps adjacent_spaces_def del: rx_replace_all.simps)
  next
    case (Cons c cs)
    have len: "length (dropWhile is_space cs) < length s"
      using Cons length_dropWhile_le [of is_space cs] by simp
    have lcs: "length cs < length s" using Cons by simp
    show ?thesis
    proof (cases "is_space c")
      case False
      with less [OF lcs] Cons show ?thesis
        by (simp add: collapse_simps adjacent_spaces_Cons del: rx_replace_all.simps)
    next
      case True
      have "collapse (dropWhile is_space cs) = [] \<or> \<not> is_space (hd (collapse (dropWhile is_space cs)))"
      proof (cases "dropWhile is_space cs")
        case Nil
        then have "collapse (dropWhile is_space cs) = []"
          by (simp only: collapse_simps(1))
        then show ?thesis by blast
      next
        case (Cons d ds)
        then have "\<not> is_space d" by (metis hd_dropWhile list.distinct(1) list.sel(1))
        with Cons show ?thesis by (simp add: collapse_head del: rx_replace_all.simps)
      qed
      with True less [OF len] Cons show ?thesis
        by (auto simp: collapse_simps adjacent_spaces_Cons simp del: rx_replace_all.simps)
    qed
  qed
qed

lemma collapse_keeps_tag_free: "\<not> rx_test tag_rx r \<Longrightarrow> \<not> rx_test tag_rx (collapse r)"
proof (induction "length r" arbitrary: r rule: less_induct)
  case less
  show ?case
  proof (cases r)
    case Nil
    then show ?thesis
      by (simp add: collapse_simps rx_test_tag del: rx_replace_all.simps rx_test.simps)
  next
    case (Cons c cs)
    have len: "length (dropWhile is_space cs) < length r"
      using Cons length_dropWhile_le [of is_space cs] by simp
    have lcs: "length cs < length r" using Cons by simp
    from less.prems Cons have nt: "\<not> rx_test tag_rx cs"
      and nm: "\<not> (c = ch CHR ''<'' \<and> cs \<noteq> [] \<and> hd cs \<noteq> ch CHR ''>'' \<and> ch CHR ''>'' \<in> set cs)"
      by (simp_all add: rx_test_tag del: rx_test.simps of_char_Char)
    have sp: "\<not> is_space (ch CHR ''<'')" "\<not> is_space (ch CHR ''>'')" "ch CHR ''>'' \<noteq> (0x20 :: jschar)"
      "(0x20 :: jschar) \<noteq> ch CHR ''<''"
      by (simp_all add: is_space_def)
    show ?thesis
    proof (cases "is_space c")
      case True
      have "\<not> rx_test tag_rx (dropWhile is_space cs)"
        using nt rx_test_tag_sublist [OF sublist_dropWhile] by blast
      from less.hyps [OF len this] True Cons sp(4) show ?thesis
        by (simp add: collapse_simps rx_test_tag del: rx_replace_all.simps rx_test.simps
            of_char_Char)
    next
      case False
      have "\<not> (c = ch CHR ''<'' \<and> collapse cs \<noteq> [] \<and> hd (collapse cs) \<noteq> ch CHR ''>'' \<and>
                ch CHR ''>'' \<in> set (collapse cs))"
      proof
        assume a: "c = ch CHR ''<'' \<and> collapse cs \<noteq> [] \<and> hd (collapse cs) \<noteq> ch CHR ''>'' \<and>
                ch CHR ''>'' \<in> set (collapse cs)"
        then have gt: "ch CHR ''>'' \<in> set cs"
          using set_collapse [of cs] sp(3) by blast
        then have ne: "cs \<noteq> []" by auto
        with a gt nm have hd: "hd cs = ch CHR ''>''" by blast
        from ne hd obtain ds where cs: "cs = ch CHR ''>'' # ds" by (cases cs) auto
        have "collapse cs = ch CHR ''>'' # collapse ds"
          unfolding cs using sp(2) by (rule collapse_head)
        with a show False by simp
      qed
      with less.hyps [OF lcs nt] False Cons show ?thesis
        by (simp add: collapse_simps rx_test_tag del: rx_replace_all.simps rx_test.simps
            of_char_Char)
    qed
  qed
qed

lemma sublist_trim: "sublist (trim y) y"
proof -
  have "sublist (dropWhile is_space (rev (dropWhile is_space y))) (rev (dropWhile is_space y))"
    by (rule sublist_dropWhile)
  then have "sublist (trim y) (dropWhile is_space y)"
    unfolding trim_def by (metis rev_rev_ident sublist_rev)
  moreover have "sublist (dropWhile is_space y) y"
    by (rule sublist_dropWhile)
  ultimately show ?thesis
    by (rule sublist_order.order_trans)
qed

lemma parseVTT_sublist:
  "sublist (parseVTT vtt)
     (collapse (strip_tags (join (js '' '') (filter keep_line (split_on 0x0A vtt)))))"
  unfolding parseVTT_def
  using sublist_order.order_trans [OF sublist_take sublist_trim] by blast

lemma adjacent_spaces_sublist: "sublist r r' \<Longrightarrow> adjacent_spaces r \<Longrightarrow> adjacent_spaces r'"
  unfolding adjacent_spaces_def
  using sublist_order.order_trans by blast

text \<open>
  C5. For every input string the result of \<open>parseVTT\<close> has at most 3000 characters; the tag
  pattern of the source matches nowhere in it, so no inline tag is left; every whitespace
  character in it is a plain space and no two of them are side by side, so every run of
  whitespace has become one space; and the lines that begin with \<^verbatim>\<open>WEBVTT\<close>, \<^verbatim>\<open>NOTE\<close>,
  \<^verbatim>\<open>Kind:\<close>, \<^verbatim>\<open>Language:\<close> or a timestamp of two digits, a colon and two digits are removed:
  the result is the one for the input without these lines.
\<close>

theorem parseVTT_cleans:
  "length (parseVTT vtt) \<le> 3000 \<and>
   \<not> rx_test tag_rx (parseVTT vtt) \<and>
   (\<forall>c \<in> set (parseVTT vtt). is_space c \<longrightarrow> c = 0x20) \<and>
   \<not> adjacent_spaces (parseVTT vtt) \<and>
   parseVTT vtt =
     parseVTT (join [0x0A] (filter (\<lambda>l. \<not> marker_line l) (split_on 0x0A vtt))) \<and>
   (\<forall>ls. (\<forall>l \<in> set ls. 0x0A \<notin> set l) \<longrightarrow>
      parseVTT (join [0x0A] ls) = parseVTT (join [0x0A] (filter (\<lambda>l. \<not> marker_line l) ls)))"
proof (intro conjI allI impI ballI)
  let ?joined = "join (js '' '') (filter keep_line (split_on 0x0A vtt))"
  show "length (parseVTT vtt) \<le> 3000"
    by (simp add: parseVTT_def)
  show "\<not> rx_test tag_rx (parseVTT vtt)"
    using rx_test_tag_sublist [OF parseVTT_sublist [of vtt]]
      collapse_keeps_tag_free [OF strip_tags_no_tag [of ?joined]]
    by blast
  show "c = 0x20" if "c \<in> set (parseVTT vtt)" and "is_space c" for c
    using that set_mono_sublist [OF parseVTT_sublist [of vtt]]
      collapse_spaces_plain [of c "strip_tags ?joined"]
    by blast
  show "\<not> adjacent_spaces (parseVTT vtt)"
    using adjacent_spaces_sublist [OF parseVTT_sublist [of vtt]]
      collapse_no_adjacent [of "strip_tags ?joined"]
    by blast
  show "parseVTT vtt =
     parseVTT (join [0x0A] (filter (\<lambda>l. \<not> marker_line l) (split_on 0x0A vtt)))"
    by (rule parseVTT_without_marker_lines)
  show "parseVTT (join [0x0A] ls) = parseVTT (join [0x0A] (filter (\<lambda>l. \<not> marker_line l) ls))"
    if "\<forall>l \<in> set ls. 0x0A \<notin> set l" for ls
    using that by (rule parseVTT_drops_marker_lines)
qed

lemma marker_line_eval:
  "marker_line l \<longleftrightarrow>
     starts_with l (js ''WEBVTT'') \<or> starts_with l (js ''NOTE'') \<or> starts_with l (js ''Kind:'') \<or>
     starts_with l (js ''Language:'') \<or> rx_match_start timestamp_rx l"
  by (simp add: marker_line_def starts_with_prefix timestamp_rx_start)

theorem parseVTT_cleans_witness:
  "0x0A \<notin> set (concat vtt_sample_lines) \<and>
   filter (\<lambda>l. \<not> marker_line l) vtt_sample_lines = [js '''', js ''Hello <c>big</c>   world''] \<and>
   parseVTT (join [0x0A] vtt_sample_lines) = js ''Hello big world''"
proof -
  have a: "\<forall>l \<in> set vtt_sample_lines. 0x0A \<notin> set l"
    by (simp add: vtt_sample_lines_def js_def)
  have b: "filter (\<lambda>l. \<not> marker_line l) vtt_sample_lines = [js '''', js ''Hello <c>big</c>   world'']"
    by (simp add: vtt_sample_lines_def marker_line_eval starts_with_def rx_match_start_def
        timestamp_rx_def is_digit_def js_def)
  have c: "parseVTT (join [0x0A] [js '''', js ''Hello <c>big</c>   world'']) = js ''Hello big world''"
    by (simp add: parseVTT_def js_def keep_line_def starts_with_def rx_match_start_def
        timestamp_rx_def is_digit_def tag_rx_def spaces_rx_def trim_def rx_plus_class is_space_def)
  from a have a': "0x0A \<notin> set (concat vtt_sample_lines)"
    by simp
  from parseVTT_cleans [of "[]"] a a' b c show ?thesis
    by simp
qed

end
